theory Spec2Isabelle
  imports Main
begin

section \<open>JavaScript values\<close>

text \<open>
  The values that flow through \<^verbatim>\<open>JX.Request\<close> and \<^verbatim>\<open>JX.Event\<close>: the parsed response
  and its fields, the argument of a notification, the entries of the key table.
  Numbers are integers here; an object is the list of its own properties in
  insertion order.
\<close>

datatype jsval =
    JUndefined
  | JNull
  | JBool bool
  | JNum int
  | JStr string
  | JArr "jsval list"
  | JObj "(string \<times> jsval) list"

datatype js_error = TypeError | SyntaxError | JsError string

text \<open>How a statement completes: normally, or by an exception that propagates.\<close>

datatype completion = Normal | Throw js_error

text \<open>ToBoolean: what \<^verbatim>\<open>if (v)\<close>, \<^verbatim>\<open>v || w\<close> and \<^verbatim>\<open>v && w\<close> test.\<close>

fun truthy :: "jsval \<Rightarrow> bool" where
  "truthy JUndefined = False"
| "truthy JNull = False"
| "truthy (JBool b) = b"
| "truthy (JNum n) = (n \<noteq> 0)"
| "truthy (JStr s) = (s \<noteq> [])"
| "truthy (JArr xs) = True"
| "truthy (JObj kvs) = True"

definition js_or :: "jsval \<Rightarrow> jsval \<Rightarrow> jsval" where
  "js_or a b = (if truthy a then a else b)"

subsection \<open>Numbers as property names\<close>

definition digit_char :: "nat \<Rightarrow> char" where
  "digit_char d = ''0123456789'' ! d"

function nat_to_string :: "nat \<Rightarrow> string" where
  "nat_to_string n =
     (if n < 10 then [digit_char n]
      else nat_to_string (n div 10) @ [digit_char (n mod 10)])"
  by pat_completeness auto
termination
  by (relation "measure (\<lambda>n. n)") auto

declare nat_to_string.simps [simp del]

definition int_to_string :: "int \<Rightarrow> string" where
  "int_to_string i =
     (if i < 0 then CHR ''-'' # nat_to_string (nat (- i)) else nat_to_string (nat i))"

text \<open>Reading a decimal numeral back; used to show that distinct codes name distinct properties.\<close>

definition digit_val :: "char \<Rightarrow> nat" where
  "digit_val c = of_char c - 48"

definition string_to_nat :: "string \<Rightarrow> nat" where
  "string_to_nat s = foldl (\<lambda>a c. 10 * a + digit_val c) 0 s"

definition string_to_int :: "string \<Rightarrow> int" where
  "string_to_int s =
     (case s of
        [] \<Rightarrow> 0
      | c # cs \<Rightarrow> (if c = CHR ''-'' then - int (string_to_nat cs) else int (string_to_nat s)))"

text \<open>
  ToString, as \<^verbatim>\<open>encodeURIComponent(v)\<close> and a subscript \<^verbatim>\<open>obj[v]\<close> apply it: a number
  becomes its decimal numeral (JavaScript changes to exponent notation from \<open>10\<^sup>2\<^sup>1\<close> on,
  far from any key code or payload here), a string is itself, an array joins its elements
  with commas (a null or undefined element contributes nothing).
\<close>

fun join :: "string \<Rightarrow> string list \<Rightarrow> string" where
  "join sep [] = []"
| "join sep [x] = x"
| "join sep (x # y # ys) = x @ sep @ join sep (y # ys)"

fun to_string :: "jsval \<Rightarrow> string" where
  "to_string JUndefined = ''undefined''"
| "to_string JNull = ''null''"
| "to_string (JBool b) = (if b then ''true'' else ''false'')"
| "to_string (JNum n) = int_to_string n"
| "to_string (JStr s) = s"
| "to_string (JArr xs) =
     join '','' (map (\<lambda>x. if x = JUndefined \<or> x = JNull then [] else to_string x) xs)"
| "to_string (JObj kvs) = ''[object Object]''"

definition property_key :: "jsval \<Rightarrow> string" where
  "property_key c = to_string c"

text \<open>
  \<^verbatim>\<open>obj[c]\<close> on an object given by its own properties; a missing property reads as
  undefined. Names that every object inherits, such as \<^verbatim>\<open>constructor\<close>, are not looked
  for: no table below has such a name as a key or as a value.
\<close>

definition subscript :: "(string \<times> jsval) list \<Rightarrow> jsval \<Rightarrow> jsval" where
  "subscript props c =
     (case map_of props (property_key c) of None \<Rightarrow> JUndefined | Some v \<Rightarrow> v)"

section \<open>JX.Event\<close>

text \<open>
  The native event as far as \<^verbatim>\<open>JX.Event\<close> touches it: the two legacy fields it writes,
  the two fields it reads, whether the two standard methods exist, and how often each
  was called.
\<close>

record raw_event =
  cancelBubble :: bool
  returnValue :: bool
  shiftKey :: bool
  keyCode :: int
  has_stopPropagation :: bool
  has_preventDefault :: bool
  stopPropagation_calls :: nat
  preventDefault_calls :: nat

text \<open>The properties of \<^verbatim>\<open>JX.Event\<close>, with the defaults of the source in \<open>Event_new\<close>.\<close>

record event =
  rawEvent :: "raw_event option"
  etype :: "string option"
  target :: "nat option"
  edata :: "(string \<times> jsval) list option"
  path :: "string list"
  stopped :: bool
  prevented :: bool
  nodes :: "(string \<times> nat) list"

definition Event_new :: event where
  "Event_new =
     \<lparr> rawEvent = None, etype = None, target = None, edata = None, path = [],
       stopped = False, prevented = False, nodes = [] \<rparr>"

text \<open>
  \<^verbatim>\<open>stop\<close>, \<^verbatim>\<open>prevent\<close> and \<^verbatim>\<open>kill\<close> mutate the receiver and return \<^verbatim>\<open>this\<close>: the
  result of each function below is the receiver after the call, which is also the
  returned reference.
\<close>

definition Event_stop :: "event \<Rightarrow> event" where
  "Event_stop e =
     (let e1 = (case rawEvent e of
                  None \<Rightarrow> e
                | Some r \<Rightarrow>
                    let r1 = r\<lparr>cancelBubble := True\<rparr>;
                        r2 = (if has_stopPropagation r1
                              then r1\<lparr>stopPropagation_calls := Suc (stopPropagation_calls r1)\<rparr>
                              else r1)
                    in e\<lparr>rawEvent := Some r2\<rparr>)
      in e1\<lparr>stopped := True\<rparr>)"

definition Event_prevent :: "event \<Rightarrow> event" where
  "Event_prevent e =
     (let e1 = (case rawEvent e of
                  None \<Rightarrow> e
                | Some r \<Rightarrow>
                    let r1 = r\<lparr>returnValue := False\<rparr>;
                        r2 = (if has_preventDefault r1
                              then r1\<lparr>preventDefault_calls := Suc (preventDefault_calls r1)\<rparr>
                              else r1)
                    in e\<lparr>rawEvent := Some r2\<rparr>)
      in e1\<lparr>prevented := True\<rparr>)"

definition Event_kill :: "event \<Rightarrow> event" where
  "Event_kill e = (let e1 = Event_prevent e; e2 = Event_stop e1 in e2)"

text \<open>The static table \<^verbatim>\<open>JX.Event._keymap\<close>, property by property.\<close>

definition Event_keymap :: "(string \<times> jsval) list" where
  "Event_keymap =
     [ (''8'', JStr ''delete''),
       (''9'', JStr ''tab''),
       (''13'', JStr ''return''),
       (''27'', JStr ''esc''),
       (''37'', JStr ''left''),
       (''38'', JStr ''up''),
       (''39'', JStr ''right''),
       (''40'', JStr ''down''),
       (''63232'', JNum 38),
       (''63233'', JNum 40),
       (''62234'', JNum 37),
       (''62235'', JNum 39) ]"

text \<open>
  The loop of \<^verbatim>\<open>getSpecialKey\<close>:
  \<^verbatim>\<open>do { c = keymap[c] || null; } while (c && keymap[c])\<close>.
  Nothing bounds the number of rounds, so the loop is a partial function: \<open>None\<close>
  is a loop that never leaves.
\<close>

partial_function (option) keymap_loop :: "(string \<times> jsval) list \<Rightarrow> jsval \<Rightarrow> jsval option" where
  "keymap_loop km c =
     (let c1 = js_or (subscript km c) JNull
      in if truthy c1 \<and> truthy (subscript km c1) then keymap_loop km c1 else Some c1)"

text \<open>
  \<^verbatim>\<open>getSpecialKey\<close>, with the table it reads as a parameter (\<^verbatim>\<open>JX.Event._keymap\<close> is a
  mutable static). \<open>Some v\<close> is the returned value, \<open>None\<close> no return.
\<close>

definition Event_getSpecialKey :: "(string \<times> jsval) list \<Rightarrow> event \<Rightarrow> jsval option" where
  "Event_getSpecialKey km e =
     (case rawEvent e of
        None \<Rightarrow> Some JNull
      | Some r \<Rightarrow> if shiftKey r then Some JNull else keymap_loop km (JNum (keyCode r)))"

text \<open>
  The lookup as the specification words it: the raw code is resolved once, and when the
  result is itself a code of the table it is resolved once more; nothing is followed
  further.
\<close>

definition two_level_lookup :: "(string \<times> jsval) list \<Rightarrow> int \<Rightarrow> jsval" where
  "two_level_lookup km k =
     (let c1 = js_or (subscript km (JNum k)) JNull
      in if truthy c1 \<and> truthy (subscript km c1)
         then js_or (subscript km c1) JNull
         else c1)"

text \<open>A key event with the given code and shift state.\<close>

definition key_event :: "int \<Rightarrow> bool \<Rightarrow> event" where
  "key_event k shift =
     Event_new\<lparr> rawEvent := Some \<lparr> cancelBubble = False, returnValue = True, shiftKey = shift,
                                   keyCode = k, has_stopPropagation = True,
                                   has_preventDefault = True, stopPropagation_calls = 0,
                                   preventDefault_calls = 0 \<rparr>,
                etype := Some ''keydown'' \<rparr>"

text \<open>Two tables that are not the shipped one: a cycle of two codes, and a chain of three.\<close>

definition cyclic_keymap :: "(string \<times> jsval) list" where
  "cyclic_keymap = [(''1'', JNum 2), (''2'', JNum 1)]"

definition chain_keymap :: "(string \<times> jsval) list" where
  "chain_keymap = [(''1'', JNum 2), (''2'', JNum 3), (''3'', JStr ''tab'')]"

section \<open>JX.Request\<close>

subsection \<open>Strings\<close>

definition hex_digit :: "nat \<Rightarrow> char" where
  "hex_digit d = ''0123456789ABCDEF'' ! d"

text \<open>The characters \<^verbatim>\<open>encodeURIComponent\<close> leaves alone; the last one is the apostrophe.\<close>

definition unreserved :: "char list" where
  "unreserved =
     ''ABCDEFGHIJKLMNOPQRSTUVWXYZabcdefghijklmnopqrstuvwxyz0123456789-_.!~*()'' @ [CHR 0x27]"

text \<open>
  A string is the list of its UTF-8 bytes, so escaping byte by byte is what
  \<^verbatim>\<open>encodeURIComponent\<close> does to a well-formed string.
\<close>

definition encodeURIComponent :: "string \<Rightarrow> string" where
  "encodeURIComponent s =
     concat (map (\<lambda>c. if c \<in> set unreserved then [c]
                       else [CHR ''%'', hex_digit (of_char c div 16), hex_digit (of_char c mod 16)])
               s)"

definition toUpperCase :: "string \<Rightarrow> string" where
  "toUpperCase s =
     map (\<lambda>c. case map_of (zip ''abcdefghijklmnopqrstuvwxyz'' ''ABCDEFGHIJKLMNOPQRSTUVWXYZ'') c of
                 None \<Rightarrow> c
               | Some u \<Rightarrow> u)
         s"

text \<open>\<^verbatim>\<open>s.indexOf(p) != 0\<close> is the negation of this.\<close>

definition starts_with :: "string \<Rightarrow> string \<Rightarrow> bool" where
  "starts_with p s = (take (length p) s = p)"

subsection \<open>Objects\<close>

text \<open>
  \<^verbatim>\<open>obj.name = v\<close> on the list of own properties: an existing property keeps its place,
  a new one goes last. \<^verbatim>\<open>for (k in obj)\<close> is taken to enumerate in this order, which is
  what engines do for names that are not array indices.
\<close>

fun set_prop :: "(string \<times> jsval) list \<Rightarrow> string \<Rightarrow> jsval \<Rightarrow> (string \<times> jsval) list" where
  "set_prop [] k v = [(k, v)]"
| "set_prop ((k', v') # kvs) k v =
     (if k' = k then (k, v) # kvs else (k', v') # set_prop kvs k v)"

text \<open>
  \<^verbatim>\<open>v.name\<close>: a TypeError on null and undefined, the own property of an object, the
  length of an array or a string, undefined otherwise.
\<close>

fun get_prop :: "jsval \<Rightarrow> string \<Rightarrow> js_error + jsval" where
  "get_prop JUndefined name = Inl TypeError"
| "get_prop JNull name = Inl TypeError"
| "get_prop (JObj kvs) name = Inr (case map_of kvs name of None \<Rightarrow> JUndefined | Some v \<Rightarrow> v)"
| "get_prop (JArr xs) name = Inr (if name = ''length'' then JNum (int (length xs)) else JUndefined)"
| "get_prop (JStr s) name = Inr (if name = ''length'' then JNum (int (length s)) else JUndefined)"
| "get_prop (JBool b) name = Inr JUndefined"
| "get_prop (JNum n) name = Inr JUndefined"

subsection \<open>The platform\<close>

text \<open>
  The transport object as \<^verbatim>\<open>JX.Request\<close> drives and reads it: the handler bound to it
  (the request it belongs to), the three fields the handler reads, and a record of the
  calls made on it.
\<close>

record xmlhttprequest =
  kind :: string
  onreadystatechange :: "nat option"
  readyState :: nat
  status :: int
  responseText :: string
  opened :: "(string \<times> string \<times> bool) option"
  requestHeaders :: "(string \<times> string) list"
  sent :: "string option option"
  aborts :: nat

definition xmlhttprequest_new :: "string \<Rightarrow> xmlhttprequest" where
  "xmlhttprequest_new k =
     \<lparr> kind = k, onreadystatechange = None, readyState = 0, status = 0, responseText = [],
       opened = None, requestHeaders = [], sent = None, aborts = 0 \<rparr>"

text \<open>
  Modelled from the spec: the Timer collaborator \<^verbatim>\<open>JX.defer\<close> (javelin-util, not part of
  the sources at hand), \<^verbatim>\<open>schedule(callback, delayMs) -> handle\<close> with \<^verbatim>\<open>cancel(handle)\<close>.
  A timer is one-shot: it runs its callback only while pending. The two callbacks the
  source hands over are \<^verbatim>\<open>JX.bind(this, this._fail, JX.Request.ERROR_TIMEOUT)\<close> and
  \<^verbatim>\<open>function() { throw exception; }\<close>.
\<close>

datatype callback = Fail_bound nat jsval | Rethrow js_error

record deferred =
  callback :: callback
  delay :: int
  pending :: bool

subsection \<open>Requests and the world around them\<close>

text \<open>
  The members and properties of one \<^verbatim>\<open>JX.Request\<close> (\<open>http_method\<close> is the property
  \<^verbatim>\<open>method\<close>). \<open>listeners\<close> are the subscriptions
  made with \<^verbatim>\<open>listen\<close>; \<open>invoked\<close> records every \<^verbatim>\<open>this.invoke(name, args...)\<close> in
  order, also one that a subscriber ends by throwing.
\<close>

record request =
  URI :: string
  data :: "(string \<times> jsval) list option"
  http_method :: string
  raw :: bool
  timeout :: "int option"
  xhrkey :: "nat option"
  transport :: "nat option"
  finished :: bool
  timer :: "nat option"
  listeners :: "(string \<times> nat) list"
  invoked :: "(string \<times> jsval list) list"

text \<open>
  Requests and transport objects live in a store and are named by references.
  \<open>xhr\<close> is the static array \<^verbatim>\<open>JX.Request._xhr\<close>, \<open>None\<close> a hole left by \<^verbatim>\<open>delete\<close>.
  \<open>merged\<close> and \<open>behaviors\<close> record the calls of \<^verbatim>\<open>JX.Stratcom.mergeData\<close> and
  \<^verbatim>\<open>JX.initBehaviors\<close>, \<open>logged\<close> those of \<^verbatim>\<open>JX.log\<close>, \<open>uncaught\<close> the exceptions that
  reach the event loop.
\<close>

record world =
  heap :: "nat \<Rightarrow> request"
  xhr :: "nat option list"
  xports :: "nat \<Rightarrow> xmlhttprequest"
  next_xport :: nat
  timers :: "deferred list"
  merged :: "jsval list"
  behaviors :: "jsval list"
  logged :: "js_error list"
  uncaught :: "js_error list"

text \<open>
  What the browser and the application decide and the source only calls: the build flag
  \<^verbatim>\<open>__DEV__\<close>; \<^verbatim>\<open>eval\<close>; whether each of the three transport constructors succeeds (\<open>None\<close>)
  or throws; whether \<^verbatim>\<open>abort()\<close> on a transport handle throws, which may depend on the
  state of the world at the call; whether running the snippets of \<^verbatim>\<open>response.onload\<close>
  throws (the snippets are server-supplied source text; nothing else of their effect is
  modelled); and whether the subscribers of a channel of a request, called with the given
  arguments in the given state, end by throwing.
\<close>

record platform =
  DEV :: bool
  js_eval :: "string \<Rightarrow> js_error + jsval"
  construct_xhr :: "string \<Rightarrow> js_error option"
  xport_abort :: "world \<Rightarrow> nat \<Rightarrow> js_error option"
  run_onload :: "jsval \<Rightarrow> js_error option"
  subscribers :: "world \<Rightarrow> nat \<Rightarrow> string \<Rightarrow> jsval list \<Rightarrow> js_error option"

definition ERROR_TIMEOUT :: int where
  "ERROR_TIMEOUT = - 9000"

definition events :: "string list" where
  "events = [''done'', ''error'', ''finally'']"

text \<open>The constructor; the property defaults are those of the \<^verbatim>\<open>properties\<close> block.\<close>

definition Request_construct :: "string \<Rightarrow> nat option \<Rightarrow> request" where
  "Request_construct uri handler =
     \<lparr> URI = uri, data = None, http_method = ''POST'', raw = False, timeout = None,
       xhrkey = None, transport = None, finished = False, timer = None,
       listeners = (case handler of None \<Rightarrow> [] | Some h \<Rightarrow> [(''done'', h)]),
       invoked = [] \<rparr>"

definition update_request :: "nat \<Rightarrow> (request \<Rightarrow> request) \<Rightarrow> world \<Rightarrow> world" where
  "update_request r f w = w\<lparr>heap := (heap w)(r := f (heap w r))\<rparr>"

definition update_xport :: "nat \<Rightarrow> (xmlhttprequest \<Rightarrow> xmlhttprequest) \<Rightarrow> world \<Rightarrow> world" where
  "update_xport x f w = w\<lparr>xports := (xports w)(x := f (xports w x))\<rparr>"

text \<open>
  \<^verbatim>\<open>this.invoke(name, args...)\<close>: the call is recorded, and it completes as the subscribers
  do; an exception of theirs leaves \<^verbatim>\<open>invoke\<close>.
\<close>

definition invoke :: "platform \<Rightarrow> nat \<Rightarrow> string \<Rightarrow> jsval list \<Rightarrow> world \<Rightarrow> completion \<times> world" where
  "invoke P r name args w =
     (case subscribers P w r name args of None \<Rightarrow> Normal | Some e \<Rightarrow> Throw e,
      update_request r (\<lambda>this. this\<lparr>invoked := invoked this @ [(name, args)]\<rparr>) w)"

text \<open>
  The two statements that end \<^verbatim>\<open>_fail\<close> and \<^verbatim>\<open>_done\<close>: \<^verbatim>\<open>this.invoke(name, arg)\<close>, then
  \<^verbatim>\<open>this.invoke('finally')\<close>, which is not reached when the first throws.
\<close>

definition invoke_then_finally ::
    "platform \<Rightarrow> nat \<Rightarrow> string \<Rightarrow> jsval list \<Rightarrow> world \<Rightarrow> completion \<times> world" where
  "invoke_then_finally P r name args w =
     (case invoke P r name args w of
        (Throw e, w1) \<Rightarrow> (Throw e, w1)
      | (Normal, w1) \<Rightarrow> invoke P r ''finally'' [] w1)"

definition JX_defer :: "callback \<Rightarrow> int \<Rightarrow> world \<Rightarrow> nat \<times> world" where
  "JX_defer cb ms w =
     (length (timers w), w\<lparr>timers := timers w @ [\<lparr>callback = cb, delay = ms, pending = True\<rparr>]\<rparr>)"

definition stop_timer :: "nat \<Rightarrow> world \<Rightarrow> world" where
  "stop_timer t w =
     (if t < length (timers w)
      then w\<lparr>timers := (timers w)[t := (timers w ! t)\<lparr>pending := False\<rparr>]\<rparr>
      else w)"

subsection \<open>Members\<close>

text \<open>
  \<^verbatim>\<open>_cleanup\<close>, statement by statement. \<open>cleanup_state\<close> is its first three statements.
  The last statement calls \<^verbatim>\<open>abort()\<close> on \<^verbatim>\<open>this._transport\<close>: a TypeError while that is
  still null, and otherwise whatever the platform's \<^verbatim>\<open>abort()\<close> does in the state that
  the three statements before it have left.
\<close>

definition cleanup_state :: "nat \<Rightarrow> world \<Rightarrow> world" where
  "cleanup_state r w =
     (let w1 = update_request r (\<lambda>this. this\<lparr>finished := True\<rparr>) w;
          w2 = (case xhrkey (heap w1 r) of
                  None \<Rightarrow> w1
                | Some k \<Rightarrow> w1\<lparr>xhr := (xhr w1)[k := None]\<rparr>);
          w3 = (case timer (heap w2 r) of
                  None \<Rightarrow> w2
                | Some t \<Rightarrow> stop_timer t w2)
      in w3)"

definition Request_cleanup :: "platform \<Rightarrow> nat \<Rightarrow> world \<Rightarrow> completion \<times> world" where
  "Request_cleanup P r w =
     (let w3 = cleanup_state r w
      in case transport (heap w3 r) of
           None \<Rightarrow> (Throw TypeError, w3)
         | Some x \<Rightarrow>
             (let w4 = update_xport x (\<lambda>xp. xp\<lparr>aborts := Suc (aborts xp)\<rparr>) w3
              in case xport_abort P w3 x of
                   None \<Rightarrow> (Normal, w4)
                 | Some e \<Rightarrow> (Throw e, w4)))"

definition Request_abort :: "platform \<Rightarrow> nat \<Rightarrow> world \<Rightarrow> completion \<times> world" where
  "Request_abort P r w = Request_cleanup P r w"

definition Request_fail :: "platform \<Rightarrow> nat \<Rightarrow> jsval \<Rightarrow> world \<Rightarrow> completion \<times> world" where
  "Request_fail P r error w =
     (case Request_cleanup P r w of
        (Throw e, w1) \<Rightarrow> (Throw e, w1)
      | (Normal, w1) \<Rightarrow> invoke_then_finally P r ''error'' [error] w1)"

definition Request_done :: "platform \<Rightarrow> nat \<Rightarrow> jsval \<Rightarrow> world \<Rightarrow> completion \<times> world" where
  "Request_done P r response w =
     (case Request_cleanup P r w of
        (Throw e, w1) \<Rightarrow> (Throw e, w1)
      | (Normal, w1) \<Rightarrow>
          (case get_prop response ''onload'' of
             Inl e \<Rightarrow> (Throw e, w1)
           | Inr onload \<Rightarrow>
               (case (if truthy onload then run_onload P onload else None) of
                  Some e \<Rightarrow> (Throw e, w1)
                | None \<Rightarrow>
                    (if raw (heap w1 r)
                     then invoke_then_finally P r ''done'' [response] w1
                     else (case get_prop response ''payload'' of
                             Inl e \<Rightarrow> (Throw e, w1)
                           | Inr payload \<Rightarrow>
                               invoke_then_finally P r ''done'' [payload] w1)))))"

text \<open>
  The first \<^verbatim>\<open>try\<close> block of \<^verbatim>\<open>_onreadystatechange\<close> (lines 90 to 116). It ends in one of
  three ways: by \<^verbatim>\<open>return\<close> (\<open>Returned\<close>), by falling through with the evaluated
  response (\<open>Evaluated\<close>), or by an exception for the \<^verbatim>\<open>catch\<close> clause (\<open>Caught\<close>).
  \<^verbatim>\<open>substring(9)\<close> drops nine characters; on the byte strings here that is right for a
  body whose first nine characters are ASCII.
\<close>

datatype try_result = Returned | Evaluated jsval | Caught js_error

definition response_error :: "string \<Rightarrow> string \<Rightarrow> js_error" where
  "response_error uri what =
     JsError (''JX.Request('' @ [CHR 0x22] @ uri @ [CHR 0x22] @ '', ...): server returned an ''
              @ what @ '' response.'')"

definition Request_try_response :: "platform \<Rightarrow> nat \<Rightarrow> world \<Rightarrow> try_result \<times> world" where
  "Request_try_response P r w =
     (if finished (heap w r) then (Returned, w)
      else case transport (heap w r) of
        None \<Rightarrow> (Caught TypeError, w)
      | Some x \<Rightarrow>
          (let xport = xports w x in
           if readyState xport \<noteq> 4 then (Returned, w)
           else if status xport < 200 \<or> status xport \<ge> 300
           then (case Request_fail P r JUndefined w of
                   (Throw e, w1) \<Rightarrow> (Caught e, w1)
                 | (Normal, w1) \<Rightarrow> (Returned, w1))
           else if DEV P \<and> responseText xport = []
           then (Caught (response_error (URI (heap w r)) ''empty''), w)
           else if DEV P \<and> \<not> starts_with ''for (;;);'' (responseText xport)
           then (Caught (response_error (URI (heap w r)) ''invalid''), w)
           else (let text = drop (length ''for (;;);'') (responseText xport)
                 in case js_eval P (''('' @ text @ '')'') of
                      Inl e \<Rightarrow> (Caught e, w)
                    | Inr response \<Rightarrow> (Evaluated response, w))))"

text \<open>The second \<^verbatim>\<open>try\<close> block (lines 129 to 135), before its \<^verbatim>\<open>catch\<close>.\<close>

definition Request_deliver :: "platform \<Rightarrow> nat \<Rightarrow> jsval \<Rightarrow> world \<Rightarrow> completion \<times> world" where
  "Request_deliver P r response w =
     (case get_prop response ''error'' of
        Inl e \<Rightarrow> (Throw e, w)
      | Inr err \<Rightarrow>
          (if truthy err then Request_fail P r err w
           else case get_prop response ''javelin_metadata'' of
             Inl e \<Rightarrow> (Throw e, w)
           | Inr md \<Rightarrow>
               (let w1 = w\<lparr>merged := merged w @ [js_or md (JObj [])]\<rparr>
                in case Request_done P r response w1 of
                     (Throw e, w2) \<Rightarrow> (Throw e, w2)
                   | (Normal, w2) \<Rightarrow>
                       (case get_prop response ''javelin_behaviors'' of
                          Inl e \<Rightarrow> (Throw e, w2)
                        | Inr bs \<Rightarrow>
                            (Normal, w2\<lparr>behaviors := behaviors w2 @ [js_or bs (JObj [])]\<rparr>)))))"

definition Request_onreadystatechange :: "platform \<Rightarrow> nat \<Rightarrow> world \<Rightarrow> completion \<times> world" where
  "Request_onreadystatechange P r w =
     (case Request_try_response P r w of
        (Returned, w1) \<Rightarrow> (Normal, w1)
      | (Caught exception, w1) \<Rightarrow>
          (let w2 = (if DEV P then w1\<lparr>logged := logged w1 @ [exception]\<rparr> else w1)
           in Request_fail P r JUndefined w2)
      | (Evaluated response, w1) \<Rightarrow>
          (case Request_deliver P r response w1 of
             (Throw exception, w2) \<Rightarrow> (Normal, snd (JX_defer (Rethrow exception) 0 w2))
           | (Normal, w2) \<Rightarrow> (Normal, w2)))"

text \<open>The query string of \<^verbatim>\<open>send\<close> (lines 48 to 54), from the payload after the marker is set.\<close>

definition query_string :: "(string \<times> jsval) list \<Rightarrow> string" where
  "query_string kvs =
     join ''&'' (map (\<lambda>(k, v). encodeURIComponent k @ ''='' @ encodeURIComponent (to_string v)) kvs)"

text \<open>
  \<^verbatim>\<open>send\<close>. The constructors are tried in the order of the source; when the last one
  throws, the exception leaves \<^verbatim>\<open>send\<close> and nothing has changed. \<^verbatim>\<open>data.__async__ = true\<close>
  writes into the caller's payload object when there is one.
\<close>

definition new_transport :: "platform \<Rightarrow> js_error + string" where
  "new_transport P =
     (case construct_xhr P ''XMLHttpRequest'' of
        None \<Rightarrow> Inr ''XMLHttpRequest''
      | Some e1 \<Rightarrow>
          (case construct_xhr P ''Msxml2.XMLHTTP'' of
             None \<Rightarrow> Inr ''Msxml2.XMLHTTP''
           | Some e2 \<Rightarrow>
               (case construct_xhr P ''Microsoft.XMLHTTP'' of
                  None \<Rightarrow> Inr ''Microsoft.XMLHTTP''
                | Some e3 \<Rightarrow> Inl e3)))"

definition Request_send :: "platform \<Rightarrow> nat \<Rightarrow> world \<Rightarrow> completion \<times> world" where
  "Request_send P r w =
     (case new_transport P of
        Inl e \<Rightarrow> (Throw e, w)
      | Inr k \<Rightarrow>
          (let xport = next_xport w;
               w1 = w\<lparr>xports := (xports w)(xport := xmlhttprequest_new k),
                       next_xport := Suc (next_xport w)\<rparr>;
               w2 = update_request r
                      (\<lambda>this. this\<lparr>transport := Some xport, xhrkey := Some (length (xhr w1))\<rparr>) w1;
               w3 = w2\<lparr>xhr := xhr w2 @ [Some r]\<rparr>;
               w4 = update_xport xport (\<lambda>xp. xp\<lparr>onreadystatechange := Some r\<rparr>) w3;
               payload = set_prop (case data (heap w4 r) of None \<Rightarrow> [] | Some kvs \<Rightarrow> kvs)
                           ''__async__'' (JBool True);
               w5 = (case data (heap w4 r) of
                       None \<Rightarrow> w4
                     | Some kvs \<Rightarrow> update_request r (\<lambda>this. this\<lparr>data := Some payload\<rparr>) w4);
               q = query_string payload;
               uri0 = URI (heap w5 r);
               m = toUpperCase (http_method (heap w5 r));
               uri = (if m = ''GET''
                      then uri0 @ (if CHR ''?'' \<notin> set uri0 then ''?'' else ''&'') @ q
                      else uri0);
               w6 = (case timeout (heap w5 r) of
                       None \<Rightarrow> w5
                     | Some ms \<Rightarrow>
                         (if ms = 0 then w5
                          else (let (t, w') = JX_defer (Fail_bound r (JNum ERROR_TIMEOUT)) ms w5
                                in update_request r (\<lambda>this. this\<lparr>timer := Some t\<rparr>) w')));
               w7 = update_xport xport (\<lambda>xp. xp\<lparr>opened := Some (m, uri, True)\<rparr>) w6;
               w8 = (if m = ''POST''
                     then update_xport xport
                            (\<lambda>xp. xp\<lparr>requestHeaders := requestHeaders xp @
                                       [(''Content-Type'', ''application/x-www-form-urlencoded'')],
                                     sent := Some (Some q)\<rparr>) w7
                     else update_xport xport (\<lambda>xp. xp\<lparr>sent := Some None\<rparr>) w7)
           in (Normal, w8)))"

subsection \<open>Statics\<close>

text \<open>
  The loop of \<^verbatim>\<open>shutdown\<close>: \<^verbatim>\<open>_xhr.length\<close> and \<^verbatim>\<open>_xhr[ii]\<close> are read in every round, and
  the \<^verbatim>\<open>try\<close> around \<^verbatim>\<open>abort()\<close> drops its exception and keeps its effects.
\<close>

function shutdown_loop :: "platform \<Rightarrow> nat \<Rightarrow> world \<Rightarrow> world" where
  "shutdown_loop P ii w =
     (if ii < length (xhr w)
      then shutdown_loop P (Suc ii)
             (case xhr w ! ii of None \<Rightarrow> w | Some r \<Rightarrow> snd (Request_abort P r w))
      else w)"
  by pat_completeness auto
termination
proof (relation "measure (\<lambda>(P, ii, w). length (xhr w) - ii)")
  show "wf (measure (\<lambda>(P, ii, w). length (xhr w) - ii))"
    by simp
next
  fix P :: platform and ii :: nat and w :: world
  assume lt: "ii < length (xhr w)"
  have len: "length (xhr (snd (Request_abort P r w))) = length (xhr w)" for r
    by (simp add: Request_abort_def Request_cleanup_def cleanup_state_def update_request_def
          update_xport_def stop_timer_def Let_def split: option.splits)
  show "((P, Suc ii, case xhr w ! ii of None \<Rightarrow> w | Some r \<Rightarrow> snd (Request_abort P r w)),
         (P, ii, w)) \<in> measure (\<lambda>(P, ii, w). length (xhr w) - ii)"
    using lt len by (auto split: option.splits)
qed

declare shutdown_loop.simps [simp del]

definition Request_shutdown :: "platform \<Rightarrow> world \<Rightarrow> world" where
  "Request_shutdown P w = (shutdown_loop P 0 w)\<lparr>xhr := []\<rparr>"

subsection \<open>What the browser does to a page\<close>

text \<open>
  One turn of the event loop: application code calls \<^verbatim>\<open>send\<close> or \<^verbatim>\<open>abort\<close> on a request,
  a transport changes state and runs its handler, a timer is due, or the page unloads.
  An exception that leaves the turn is recorded in \<open>uncaught\<close>.
\<close>

datatype action =
    Call_send nat
  | Call_abort nat
  | Xhr_change nat nat int string
  | Timer_fires nat
  | Unload

definition receive :: "nat \<Rightarrow> nat \<Rightarrow> int \<Rightarrow> string \<Rightarrow> world \<Rightarrow> world" where
  "receive x rs st body w =
     update_xport x (\<lambda>xp. xp\<lparr>readyState := rs, status := st, responseText := body\<rparr>) w"

definition top_level :: "completion \<times> world \<Rightarrow> world" where
  "top_level cw =
     (case cw of
        (Normal, w) \<Rightarrow> w
      | (Throw e, w) \<Rightarrow> w\<lparr>uncaught := uncaught w @ [e]\<rparr>)"

definition run_callback :: "platform \<Rightarrow> callback \<Rightarrow> world \<Rightarrow> completion \<times> world" where
  "run_callback P cb w =
     (case cb of
        Fail_bound r error \<Rightarrow> Request_fail P r error w
      | Rethrow e \<Rightarrow> (Throw e, w))"

definition step :: "platform \<Rightarrow> action \<Rightarrow> world \<Rightarrow> world" where
  "step P a w =
     (case a of
        Call_send r \<Rightarrow> top_level (Request_send P r w)
      | Call_abort r \<Rightarrow> top_level (Request_abort P r w)
      | Xhr_change x rs st body \<Rightarrow>
          (let w1 = receive x rs st body w
           in case onreadystatechange (xports w1 x) of
                None \<Rightarrow> w1
              | Some r \<Rightarrow> top_level (Request_onreadystatechange P r w1))
      | Timer_fires t \<Rightarrow>
          (if t < length (timers w) \<and> pending (timers w ! t)
           then top_level (run_callback P (callback (timers w ! t))
                             (w\<lparr>timers := (timers w)[t := (timers w ! t)\<lparr>pending := False\<rparr>]\<rparr>))
           else w)
      | Unload \<Rightarrow> Request_shutdown P w)"

fun run :: "platform \<Rightarrow> action list \<Rightarrow> world \<Rightarrow> world" where
  "run P [] w = w"
| "run P (a # as) w = run P as (step P a w)"

section \<open>Fixtures and invariants\<close>

text \<open>
  A browser for the examples: a production build, every constructor and every
  \<^verbatim>\<open>abort()\<close> succeeds, no snippet and no subscriber throws. Its \<open>js_eval\<close> agrees with the platform's
  \<^verbatim>\<open>eval\<close> on the one text the examples evaluate, \<^verbatim>\<open>({})\<close>, an empty object literal;
  it is not consulted on any other text there.
\<close>

definition eval_object_literal :: "string \<Rightarrow> js_error + jsval" where
  "eval_object_literal src = (if src = ''({})'' then Inr (JObj []) else Inl SyntaxError)"

definition browser :: platform where
  "browser =
     \<lparr> DEV = False, js_eval = eval_object_literal, construct_xhr = (\<lambda>k. None),
       xport_abort = (\<lambda>w x. None), run_onload = (\<lambda>v. None),
       subscribers = (\<lambda>w r name args. None) \<rparr>"

text \<open>The same browser, except that \<^verbatim>\<open>abort()\<close> throws on the transport with handle 1.\<close>

definition flaky_browser :: platform where
  "flaky_browser =
     browser\<lparr> xport_abort := (\<lambda>w x. if x = 1 then Some (JsError ''abort failed'') else None) \<rparr>"

text \<open>
  A request for the examples: \<^verbatim>\<open>GET http://x/y\<close> with payload \<^verbatim>\<open>{a: "1"}\<close> and a timeout of
  three seconds.
\<close>

definition example_request :: request where
  "example_request =
     (Request_construct ''http://x/y'' None)
       \<lparr> data := Some [(''a'', JStr ''1'')], http_method := ''GET'', timeout := Some 3000 \<rparr>"

text \<open>A page on which nothing has been sent; every reference names a fresh request.\<close>

definition page :: "request \<Rightarrow> world" where
  "page this =
     \<lparr> heap = (\<lambda>r. this), xhr = [], xports = (\<lambda>x. xmlhttprequest_new []), next_xport = 0,
       timers = [], merged = [], behaviors = [], logged = [], uncaught = [] \<rparr>"

text \<open>
  A pending timer that will run the failure path of request \<open>r\<close>, and the bookkeeping
  that teardown relies on: such a timer is the one \<open>r\<close> holds in \<^verbatim>\<open>_timer\<close>, and \<open>r\<close> has
  not finished.
\<close>

definition timeout_timer :: "nat \<Rightarrow> deferred \<Rightarrow> bool" where
  "timeout_timer r d =
     (pending d \<and> (case callback d of Fail_bound r' e \<Rightarrow> r' = r | Rethrow e \<Rightarrow> False))"

definition timers_owned :: "nat \<Rightarrow> world \<Rightarrow> bool" where
  "timers_owned r w =
     list_all (\<lambda>t. \<not> timeout_timer r (timers w ! t) \<or>
                    (timer (heap w r) = Some t \<and> \<not> finished (heap w r)))
       [0..<length (timers w)]"

text \<open>A request that has not finished and for which no failure timer is pending.\<close>

definition fresh :: "nat \<Rightarrow> world \<Rightarrow> bool" where
  "fresh r w = (\<not> finished (heap w r) \<and> list_all (\<lambda>d. \<not> timeout_timer r d) (timers w))"

text \<open>
  The registry as \<^verbatim>\<open>send\<close> builds it: a registered request has a transport and
  remembers a slot of the registry in \<^verbatim>\<open>_xhrkey\<close>, and that slot holds the request itself
  or a hole.
\<close>

definition registry_ok :: "world \<Rightarrow> bool" where
  "registry_ok w =
     list_all (\<lambda>e. case e of
                     None \<Rightarrow> True
                   | Some r \<Rightarrow>
                       transport (heap w r) \<noteq> None \<and>
                       (case xhrkey (heap w r) of
                          None \<Rightarrow> False
                        | Some k \<Rightarrow> k < length (xhr w) \<and>
                                    (xhr w ! k = None \<or> xhr w ! k = Some r)))
       (xhr w)"

text \<open>
  What every turn other than \<^verbatim>\<open>send\<close> does to timers: no request changes its \<^verbatim>\<open>_timer\<close>
  or \<^verbatim>\<open>_transport\<close>, none becomes unfinished, and a failure timer pending afterwards was
  pending before and is not the own timer of a request that finished in the turn.
\<close>

definition tidy :: "world \<Rightarrow> world \<Rightarrow> bool" where
  "tidy w w' =
     ((\<forall>q. timer (heap w' q) = timer (heap w q) \<and>
           transport (heap w' q) = transport (heap w q) \<and>
           (finished (heap w q) \<longrightarrow> finished (heap w' q))) \<and>
      length (timers w) \<le> length (timers w') \<and>
      (\<forall>t q. t < length (timers w') \<and> timeout_timer q (timers w' ! t) \<longrightarrow>
             t < length (timers w) \<and> timeout_timer q (timers w ! t) \<and>
             \<not> (finished (heap w' q) \<and> \<not> finished (heap w q) \<and> timer (heap w q) = Some t)))"

text \<open>
  That \<^verbatim>\<open>abort()\<close> has been called on request \<open>r\<close> between \<open>w\<close> and \<open>w'\<close>, by its two
  effects that no exception undoes: the request is finished, and the transport it had
  has one more \<^verbatim>\<open>abort()\<close> on its record.
\<close>

definition aborted_since :: "world \<Rightarrow> world \<Rightarrow> nat \<Rightarrow> bool" where
  "aborted_since w w' r =
     (finished (heap w' r) \<and>
      (case transport (heap w r) of
         None \<Rightarrow> False
       | Some x \<Rightarrow> aborts (xports w x) < aborts (xports w' x)))"


text \<open>
  The changes that the members of request \<open>r\<close> other than \<^verbatim>\<open>send\<close> can make to the world,
  as a closure of their building blocks: teardown, a notification, a call into the
  dispatcher or the log, and a deferred re-throw.
\<close>

inductive affects :: "platform \<Rightarrow> nat \<Rightarrow> world \<Rightarrow> world \<Rightarrow> bool" for P :: platform and r :: nat where
  unchanged: "affects P r w w"
| torn_down: "affects P r w w1 \<Longrightarrow> affects P r w (snd (Request_cleanup P r w1))"
| notified: "affects P r w w1 \<Longrightarrow> affects P r w (snd (invoke P r name args w1))"
| has_merged: "affects P r w w1 \<Longrightarrow> affects P r w (w1\<lparr>merged := m\<rparr>)"
| has_initialized: "affects P r w w1 \<Longrightarrow> affects P r w (w1\<lparr>behaviors := b\<rparr>)"
| has_logged: "affects P r w w1 \<Longrightarrow> affects P r w (w1\<lparr>logged := l\<rparr>)"
| rethrown: "affects P r w w1 \<Longrightarrow> affects P r w (snd (JX_defer (Rethrow e) ms w1))"

text \<open>
  What the platform's \<^verbatim>\<open>abort()\<close> on transport \<open>x\<close> does when \<^verbatim>\<open>_cleanup\<close> of request \<open>r\<close>
  calls it from the world \<open>w\<close>.
\<close>

definition platform_abort :: "platform \<Rightarrow> nat \<Rightarrow> world \<Rightarrow> nat \<Rightarrow> completion" where
  "platform_abort P r w x =
     (case xport_abort P (cleanup_state r w) x of None \<Rightarrow> Normal | Some e \<Rightarrow> Throw e)"

text \<open>The notifications that request \<open>r\<close> has made between \<open>w\<close> and \<open>w'\<close>.\<close>

definition notified_since :: "world \<Rightarrow> world \<Rightarrow> nat \<Rightarrow> (string \<times> jsval list) list" where
  "notified_since w w' r = drop (length (invoked (heap w r))) (invoked (heap w' r))"

section \<open>Properties of JX.Event\<close>

lemmas key_eval = subscript_def property_key_def js_or_def int_to_string_def nat_to_string.simps digit_char_def

lemma digit_cases: "d < 10 \<Longrightarrow> d \<in> set [0, 1, 2, 3, 4, 5, 6, 7, 8, 9 :: nat]"
  by (simp; arith)

lemma digit_val_digit_char: "d < 10 \<Longrightarrow> digit_val (digit_char d) = d"
  using digit_cases [of d] by (auto simp: digit_val_def digit_char_def)

lemma digit_char_not_minus: "d < 10 \<Longrightarrow> digit_char d \<noteq> CHR ''-''"
  using digit_cases [of d] by (auto simp: digit_char_def)

lemma string_to_nat_snoc: "string_to_nat (s @ [c]) = 10 * string_to_nat s + digit_val c"
  by (simp add: string_to_nat_def)

lemma string_to_nat_inverse: "string_to_nat (nat_to_string n) = n"
proof (induction n rule: nat_to_string.induct)
  case (1 n)
  show ?case
  proof (cases "n < 10")
    case True
    then show ?thesis
      by (simp add: nat_to_string.simps [of n] string_to_nat_def digit_val_digit_char)
  next
    case False
    with 1 show ?thesis
      by (simp add: nat_to_string.simps [of n] string_to_nat_snoc digit_val_digit_char)
  qed
qed

lemma nat_to_string_no_minus: "CHR ''-'' \<notin> set (nat_to_string n)"
proof (induction n rule: nat_to_string.induct)
  case (1 n)
  note d = digit_char_not_minus
  show ?case
  proof (cases "n < 10")
    case True
    then show ?thesis using d [of n] by (simp add: nat_to_string.simps [of n])
  next
    case False
    with 1 show ?thesis using d [of "n mod 10"] by (simp add: nat_to_string.simps [of n])
  qed
qed

lemma nat_to_string_nonempty: "nat_to_string n \<noteq> []"
  by (subst nat_to_string.simps) simp

lemma string_to_int_inverse: "string_to_int (int_to_string i) = i"
proof (cases "i < 0")
  case True
  then show ?thesis
    by (simp add: string_to_int_def int_to_string_def string_to_nat_inverse)
next
  case False
  obtain c cs where s: "nat_to_string (nat i) = c # cs"
    using nat_to_string_nonempty [of "nat i"] by (cases "nat_to_string (nat i)") auto
  have "c \<noteq> CHR ''-''"
    using nat_to_string_no_minus [of "nat i"] s by auto
  moreover have "string_to_nat (c # cs) = nat i"
    using string_to_nat_inverse [of "nat i"] s by simp
  ultimately show ?thesis using False s
    by (simp add: string_to_int_def int_to_string_def)
qed



lemma Event_keymap_keys:
  assumes "map_of Event_keymap (int_to_string k) = Some v"
  shows "k \<in> {8, 9, 13, 27, 37, 38, 39, 40, 63232, 63233, 62234, 62235}"
proof -
  from assms have "int_to_string k \<in> fst ` set Event_keymap"
    by (metis map_of_eq_None_iff option.distinct(1))
  then have m: "int_to_string k \<in> set (map fst Event_keymap)"
    by simp
  have "\<forall>s \<in> set (map fst Event_keymap).
          string_to_int s \<in> set [8, 9, 13, 27, 37, 38, 39, 40, 63232, 63233, 62234, 62235]"
    by (simp add: Event_keymap_def string_to_int_def string_to_nat_def digit_val_def)
  with m have "string_to_int (int_to_string k)
                 \<in> set [8, 9, 13, 27, 37, 38, 39, 40, 63232, 63233, 62234, 62235]"
    by blast
  then show ?thesis
    by (simp only: string_to_int_inverse) simp
qed

lemma keymap_loop_unlisted:
  assumes "map_of km (int_to_string k) = None"
  shows "keymap_loop km (JNum k) = Some JNull" and "two_level_lookup km k = JNull"
  using assms
  by (simp_all add: keymap_loop.simps [of km "JNum k"] two_level_lookup_def subscript_def
        property_key_def js_or_def)

lemma keymap_loop_twice:
  "keymap_loop km c =
     (let c1 = js_or (subscript km c) JNull
      in if truthy c1 \<and> truthy (subscript km c1)
         then (let c2 = js_or (subscript km c1) JNull
               in if truthy c2 \<and> truthy (subscript km c2) then keymap_loop km c2 else Some c2)
         else Some c1)"
  by (simp add: keymap_loop.simps [of km c] keymap_loop.simps [of km "js_or (subscript km c) JNull"]
        Let_def)

lemma keymap_loop_listed:
  assumes "k \<in> {8, 9, 13, 27, 37, 38, 39, 40, 63232, 63233, 62234, 62235}"
  shows "keymap_loop Event_keymap (JNum k) = Some (two_level_lookup Event_keymap k)"
proof -
  have "list_all (\<lambda>k. keymap_loop Event_keymap (JNum k) = Some (two_level_lookup Event_keymap k))
          [8, 9, 13, 27, 37, 38, 39, 40, 63232, 63233, 62234, 62235]"
    by (simp add: keymap_loop.simps two_level_lookup_def Event_keymap_def key_eval Let_def)
  with assms show ?thesis
    by (auto simp: list_all_iff)
qed

lemma keymap_loop_shipped:
  "keymap_loop Event_keymap (JNum k) = Some (two_level_lookup Event_keymap k)"
proof (cases "map_of Event_keymap (int_to_string k)")
  case None
  then show ?thesis by (simp add: keymap_loop_unlisted)
next
  case (Some v)
  then show ?thesis by (intro keymap_loop_listed Event_keymap_keys)
qed

text \<open>
  Claim C4, as the code has it. With the shipped table \<open>Event_keymap\<close>,
  \<^verbatim>\<open>getSpecialKey\<close> returns for every event, whatever its raw key code, and what it returns
  is the fixed two-level lookup of the specification: one resolution, and at most one more
  when the first yields a code of the table. (The loop itself is not bounded; see the
  tables \<open>cyclic_keymap\<close> and \<open>chain_keymap\<close> below.)
\<close>

theorem getSpecialKey_shipped_table:
  "Event_getSpecialKey Event_keymap e =
     Some (case rawEvent e of
             None \<Rightarrow> JNull
           | Some r \<Rightarrow> if shiftKey r then JNull else two_level_lookup Event_keymap (keyCode r))"
  by (simp add: Event_getSpecialKey_def keymap_loop_shipped split: option.splits)

lemma keymap_loop_cyclic:
  assumes "keymap_loop km c = Some y"
  shows "\<not> (km = cyclic_keymap \<and> (c = JNum 1 \<or> c = JNum 2))"
proof (rule keymap_loop.raw_induct
    [where P = "\<lambda>km c y. \<not> (km = cyclic_keymap \<and> (c = JNum 1 \<or> c = JNum 2))", OF _ assms])
  fix loop :: "(string \<times> jsval) list \<Rightarrow> jsval \<Rightarrow> jsval option" and km c y
  assume IH: "\<And>km c y. loop km c = Some y \<Longrightarrow> \<not> (km = cyclic_keymap \<and> (c = JNum 1 \<or> c = JNum 2))"
  assume step: "(let c1 = js_or (subscript km c) JNull
                 in if truthy c1 \<and> truthy (subscript km c1) then loop km c1 else Some c1) = Some y"
  have i1: "int_to_string 1 = ''1''" and i2: "int_to_string 2 = ''2''"
    by (simp_all add: key_eval)
  show "\<not> (km = cyclic_keymap \<and> (c = JNum 1 \<or> c = JNum 2))"
  proof
    assume a: "km = cyclic_keymap \<and> (c = JNum 1 \<or> c = JNum 2)"
    then consider "c = JNum 1" | "c = JNum 2" by blast
    then show False
    proof cases
      case 1
      with a step have "loop cyclic_keymap (JNum 2) = Some y"
        by (simp add: cyclic_keymap_def subscript_def property_key_def js_or_def i1 i2 Let_def)
      with IH show False by blast
    next
      case 2
      with a step have "loop cyclic_keymap (JNum 1) = Some y"
        by (simp add: cyclic_keymap_def subscript_def property_key_def js_or_def i1 i2 Let_def)
      with IH show False by blast
    qed
  qed
qed

text \<open>
  Against claim C4 as stated: on a table with a cycle of two codes the loop of
  \<^verbatim>\<open>getSpecialKey\<close> never leaves, and on a chain of three it follows two numeric
  indirections where a two-level lookup stops after one.
\<close>

theorem getSpecialKey_cyclic_counterexample:
  "Event_getSpecialKey cyclic_keymap (key_event 1 False) = None \<and>
   Event_getSpecialKey chain_keymap (key_event 1 False) = Some (JStr ''tab'') \<and>
   two_level_lookup chain_keymap 1 = JNum 3"
proof -
  have "keymap_loop cyclic_keymap (JNum 1) = None"
    using keymap_loop_cyclic [of cyclic_keymap "JNum 1"] by (cases "keymap_loop cyclic_keymap (JNum 1)") auto
  then have "Event_getSpecialKey cyclic_keymap (key_event 1 False) = None"
    by (simp add: Event_getSpecialKey_def key_event_def Event_new_def)
  moreover have "Event_getSpecialKey chain_keymap (key_event 1 False) = Some (JStr ''tab'')"
    by (simp add: Event_getSpecialKey_def key_event_def Event_new_def chain_keymap_def key_eval
          keymap_loop_twice [of _ "JNum 1"] keymap_loop.simps [of _ "JNum 3"])
  moreover have "two_level_lookup chain_keymap 1 = JNum 3"
    by (simp add: two_level_lookup_def chain_keymap_def key_eval)
  ultimately show ?thesis by simp
qed

text \<open>
  Claim C8. With the shipped table, a key event without shift returns \<^verbatim>\<open>'down'\<close> for
  the primary down-arrow code 40 and for the alternate code 63233 that redirects to it;
  and an event whose raw event has the shift modifier set returns null, for every key code
  and every table.
\<close>

theorem getSpecialKey_down_and_shift:
  "Event_getSpecialKey Event_keymap (e\<lparr>rawEvent := Some (r\<lparr>shiftKey := False, keyCode := 40\<rparr>)\<rparr>)
     = Some (JStr ''down'') \<and>
   Event_getSpecialKey Event_keymap (e\<lparr>rawEvent := Some (r\<lparr>shiftKey := False, keyCode := 63233\<rparr>)\<rparr>)
     = Some (JStr ''down'') \<and>
   Event_getSpecialKey km (e\<lparr>rawEvent := Some (r\<lparr>shiftKey := True, keyCode := k\<rparr>)\<rparr>) = Some JNull"
proof -
  have "keymap_loop Event_keymap (JNum 40) = Some (JStr ''down'')"
    by (simp add: keymap_loop_twice [of _ "JNum 40"] Event_keymap_def key_eval)
  moreover have "keymap_loop Event_keymap (JNum 63233) = Some (JStr ''down'')"
    by (simp add: keymap_loop_twice [of _ "JNum 63233"] Event_keymap_def key_eval)
  ultimately show ?thesis
    by (simp add: Event_getSpecialKey_def)
qed


lemma Event_stop_fields:
  "stopped (Event_stop e) = True" "prevented (Event_stop e) = prevented e"
  "etype (Event_stop e) = etype e" "target (Event_stop e) = target e"
  "edata (Event_stop e) = edata e" "path (Event_stop e) = path e" "nodes (Event_stop e) = nodes e"
  by (cases "rawEvent e"; simp add: Event_stop_def Let_def)+

lemma Event_prevent_fields:
  "prevented (Event_prevent e) = True" "stopped (Event_prevent e) = stopped e"
  "etype (Event_prevent e) = etype e" "target (Event_prevent e) = target e"
  "edata (Event_prevent e) = edata e" "path (Event_prevent e) = path e" "nodes (Event_prevent e) = nodes e"
  by (cases "rawEvent e"; simp add: Event_prevent_def Let_def)+

text \<open>
  Claim C9. \<^verbatim>\<open>kill()\<close> is \<^verbatim>\<open>prevent()\<close> followed by \<^verbatim>\<open>stop()\<close> on the same event, which
  it returns: afterwards both flags are set and every other property is as before.
  \<^verbatim>\<open>prevent()\<close> alone leaves the stopped flag as it was, so false when it was false.
\<close>

theorem kill_is_prevent_then_stop:
  "Event_kill e = Event_stop (Event_prevent e) \<and>
   stopped (Event_kill e) \<and> prevented (Event_kill e) \<and>
   etype (Event_kill e) = etype e \<and> target (Event_kill e) = target e \<and>
   edata (Event_kill e) = edata e \<and> path (Event_kill e) = path e \<and>
   nodes (Event_kill e) = nodes e \<and>
   stopped (Event_prevent e) = stopped e \<and>
   \<not> stopped (Event_prevent (e\<lparr>stopped := False\<rparr>))"
proof -
  have k: "Event_kill e = Event_stop (Event_prevent e)"
    by (simp add: Event_kill_def)
  show ?thesis
    unfolding k by (simp add: Event_stop_fields Event_prevent_fields)
qed

section \<open>Properties of JX.Request\<close>

subsection \<open>Building blocks\<close>

lemma update_request_simps [simp]:
  "heap (update_request r f w) = (heap w)(r := f (heap w r))"
  "xhr (update_request r f w) = xhr w"
  "xports (update_request r f w) = xports w"
  "next_xport (update_request r f w) = next_xport w"
  "timers (update_request r f w) = timers w"
  "merged (update_request r f w) = merged w"
  "behaviors (update_request r f w) = behaviors w"
  "logged (update_request r f w) = logged w"
  "uncaught (update_request r f w) = uncaught w"
  by (simp_all add: update_request_def)

lemma update_xport_simps [simp]:
  "heap (update_xport x f w) = heap w"
  "xhr (update_xport x f w) = xhr w"
  "xports (update_xport x f w) = (xports w)(x := f (xports w x))"
  "next_xport (update_xport x f w) = next_xport w"
  "timers (update_xport x f w) = timers w"
  "merged (update_xport x f w) = merged w"
  "behaviors (update_xport x f w) = behaviors w"
  "logged (update_xport x f w) = logged w"
  "uncaught (update_xport x f w) = uncaught w"
  by (simp_all add: update_xport_def)

lemma stop_timer_simps [simp]:
  "heap (stop_timer t w) = heap w"
  "xhr (stop_timer t w) = xhr w"
  "xports (stop_timer t w) = xports w"
  "next_xport (stop_timer t w) = next_xport w"
  "merged (stop_timer t w) = merged w"
  "behaviors (stop_timer t w) = behaviors w"
  "logged (stop_timer t w) = logged w"
  "uncaught (stop_timer t w) = uncaught w"
  "length (timers (stop_timer t w)) = length (timers w)"
  by (simp_all add: stop_timer_def)

lemma JX_defer_simps [simp]:
  "fst (JX_defer cb ms w) = length (timers w)"
  "heap (snd (JX_defer cb ms w)) = heap w"
  "xhr (snd (JX_defer cb ms w)) = xhr w"
  "xports (snd (JX_defer cb ms w)) = xports w"
  "next_xport (snd (JX_defer cb ms w)) = next_xport w"
  "timers (snd (JX_defer cb ms w)) = timers w @ [\<lparr>callback = cb, delay = ms, pending = True\<rparr>]"
  "uncaught (snd (JX_defer cb ms w)) = uncaught w"
  by (simp_all add: JX_defer_def)

lemma invoke_simps [simp]:
  "fst (invoke P r name args w) =
     (case subscribers P w r name args of None \<Rightarrow> Normal | Some e \<Rightarrow> Throw e)"
  "heap (snd (invoke P r name args w)) =
     (heap w)(r := (heap w r)\<lparr>invoked := invoked (heap w r) @ [(name, args)]\<rparr>)"
  "xhr (snd (invoke P r name args w)) = xhr w"
  "xports (snd (invoke P r name args w)) = xports w"
  "next_xport (snd (invoke P r name args w)) = next_xport w"
  "timers (snd (invoke P r name args w)) = timers w"
  "uncaught (snd (invoke P r name args w)) = uncaught w"
  by (simp_all add: invoke_def)

lemma invoke_then_finally_unfold:
  "invoke_then_finally P r name args w =
     (if fst (invoke P r name args w) = Normal
      then invoke P r ''finally'' [] (snd (invoke P r name args w))
      else invoke P r name args w)"
  by (cases "invoke P r name args w"; cases "fst (invoke P r name args w)")
     (auto simp: invoke_then_finally_def)

lemma invoke_then_finally_simps:
  "heap (snd (invoke_then_finally P r name args w)) =
     (heap w)(r := (heap w r)
        \<lparr>invoked := invoked (heap w r) @ (name, args) #
           (if fst (invoke P r name args w) = Normal then [(''finally'', [])] else [])\<rparr>)"
  "xhr (snd (invoke_then_finally P r name args w)) = xhr w"
  "xports (snd (invoke_then_finally P r name args w)) = xports w"
  "next_xport (snd (invoke_then_finally P r name args w)) = next_xport w"
  "timers (snd (invoke_then_finally P r name args w)) = timers w"
  by (simp_all add: invoke_then_finally_unfold fun_eq_iff)

lemma cleanup_state_simps [simp]:
  "heap (cleanup_state r w) = (heap w)(r := (heap w r)\<lparr>finished := True\<rparr>)"
  "xhr (cleanup_state r w) =
     (case xhrkey (heap w r) of None \<Rightarrow> xhr w | Some k \<Rightarrow> (xhr w)[k := None])"
  "timers (cleanup_state r w) =
     (case timer (heap w r) of None \<Rightarrow> timers w | Some t \<Rightarrow> timers (stop_timer t w))"
  "xports (cleanup_state r w) = xports w"
  "next_xport (cleanup_state r w) = next_xport w"
  "uncaught (cleanup_state r w) = uncaught w"
  by (simp_all add: cleanup_state_def Let_def stop_timer_def split: option.splits)

lemma cleanup_fst:
  "fst (Request_cleanup P r w) =
     (case transport (heap w r) of
        None \<Rightarrow> Throw TypeError
      | Some x \<Rightarrow>
          (case xport_abort P (cleanup_state r w) x of None \<Rightarrow> Normal | Some e \<Rightarrow> Throw e))"
  by (simp add: Request_cleanup_def Let_def split: option.splits)

lemma cleanup_heap:
  "heap (snd (Request_cleanup P r w)) = (heap w)(r := (heap w r)\<lparr>finished := True\<rparr>)"
  by (simp add: Request_cleanup_def Let_def split: option.splits)

lemma cleanup_xhr:
  "xhr (snd (Request_cleanup P r w)) =
     (case xhrkey (heap w r) of None \<Rightarrow> xhr w | Some k \<Rightarrow> (xhr w)[k := None])"
  by (simp add: Request_cleanup_def Let_def split: option.splits)

lemma cleanup_timers:
  "timers (snd (Request_cleanup P r w)) =
     (case timer (heap w r) of None \<Rightarrow> timers w | Some t \<Rightarrow> timers (stop_timer t w))"
  by (simp add: Request_cleanup_def Let_def split: option.splits)

lemma cleanup_xports:
  "xports (snd (Request_cleanup P r w)) =
     (case transport (heap w r) of
        None \<Rightarrow> xports w
      | Some x \<Rightarrow> (xports w)(x := (xports w x)\<lparr>aborts := Suc (aborts (xports w x))\<rparr>))"
  by (simp add: Request_cleanup_def Let_def split: option.splits)

lemma cleanup_rest:
  "next_xport (snd (Request_cleanup P r w)) = next_xport w"
  "uncaught (snd (Request_cleanup P r w)) = uncaught w"
  by (simp_all add: Request_cleanup_def Let_def split: option.splits)

lemma fail_unfold:
  "Request_fail P r e w =
     (if fst (Request_cleanup P r w) = Normal
      then invoke_then_finally P r ''error'' [e] (snd (Request_cleanup P r w))
      else Request_cleanup P r w)"
  by (cases "Request_cleanup P r w"; cases "fst (Request_cleanup P r w)")
     (auto simp: Request_fail_def)


lemma fail_world:
  "timers (snd (Request_fail P r e w)) = timers (snd (Request_cleanup P r w))"
  "xhr (snd (Request_fail P r e w)) = xhr (snd (Request_cleanup P r w))"
  "xports (snd (Request_fail P r e w)) = xports (snd (Request_cleanup P r w))"
  "next_xport (snd (Request_fail P r e w)) = next_xport w"
  by (simp_all add: fail_unfold invoke_then_finally_simps cleanup_rest)

text \<open>
  What the failure path adds to the record of a request: nothing when teardown throws,
  and otherwise \<^verbatim>\<open>error\<close>, followed by \<^verbatim>\<open>finally\<close> unless the subscribers of \<^verbatim>\<open>error\<close> throw.
\<close>

lemma fail_invoked:
  "invoked (heap (snd (Request_fail P r e w)) r) =
     invoked (heap w r) @
       (if fst (Request_cleanup P r w) = Normal
        then (''error'', [e]) #
               (if fst (invoke P r ''error'' [e] (snd (Request_cleanup P r w))) = Normal
                then [(''finally'', [])] else [])
        else [])"
  by (simp add: fail_unfold invoke_then_finally_simps cleanup_heap)

lemma fail_sent:
  assumes "transport (heap w r) = Some x" and "\<forall>w'. xport_abort P w' x = None"
  shows "\<exists>tl. invoked (heap (snd (Request_fail P r e w)) r) = invoked (heap w r) @ (''error'', [e]) # tl
              \<and> (tl = [] \<or> tl = [(''finally'', [])])"
  using assms by (simp add: fail_invoked cleanup_fst)

lemma fail_adds:
  "\<exists>ns. invoked (heap (snd (Request_fail P r e w)) r) = invoked (heap w r) @ ns
        \<and> set ns \<subseteq> {(''error'', [e]), (''finally'', [])}"
  by (auto simp: fail_invoked)

lemmas world_eval =
  step_def top_level_def run_callback_def Request_send_def new_transport_def
  Request_abort_def Request_cleanup_def Request_fail_def Request_done_def
  Request_onreadystatechange_def Request_try_response_def Request_deliver_def
  JX_defer_def stop_timer_def invoke_def invoke_then_finally_def cleanup_state_def
  update_request_def update_xport_def receive_def flaky_browser_def
  xmlhttprequest_new_def Request_construct_def example_request_def page_def browser_def eval_object_literal_def
  query_string_def encodeURIComponent_def unreserved_def toUpperCase_def starts_with_def
  js_or_def ERROR_TIMEOUT_def Let_def split_def

subsection \<open>Sending\<close>

lemma query_a: "query_string [(''a'', JStr ''1''), (''__async__'', JBool True)] = ''a=1&__async__=true''"
  by (simp add: query_string_def encodeURIComponent_def unreserved_def)

text \<open>
  Claim C7. On a platform where a transport can be constructed, \<^verbatim>\<open>send()\<close> on a request with
  method GET, payload \<^verbatim>\<open>{a: "1"}\<close> and URI \<^verbatim>\<open>http://x/y\<close> opens the new transport on
  \<^verbatim>\<open>http://x/y?a=1&__async__=true\<close> (the payload key first, then the injected marker; \<^verbatim>\<open>?\<close>
  because the URI has no query yet), sends \<^verbatim>\<open>null\<close> as the body and sets no header.
\<close>

theorem send_GET_target:
  assumes "new_transport P = Inr k"
    and "URI (heap w r) = ''http://x/y''"
    and "http_method (heap w r) = ''GET''"
    and "data (heap w r) = Some [(''a'', JStr ''1'')]"
  shows "fst (Request_send P r w) = Normal \<and>
         transport (heap (snd (Request_send P r w)) r) = Some (next_xport w) \<and>
         opened (xports (snd (Request_send P r w)) (next_xport w))
           = Some (''GET'', ''http://x/y?a=1&__async__=true'', True) \<and>
         sent (xports (snd (Request_send P r w)) (next_xport w)) = Some None \<and>
         requestHeaders (xports (snd (Request_send P r w)) (next_xport w)) = []"
  using assms
  by (simp add: Request_send_def Let_def toUpperCase_def query_a xmlhttprequest_new_def
        split_def split: option.splits)

theorem send_GET_target_witness:
  "new_transport browser = Inr ''XMLHttpRequest'' \<and>
   URI (heap (page example_request) 0) = ''http://x/y'' \<and>
   http_method (heap (page example_request) 0) = ''GET'' \<and>
   data (heap (page example_request) 0) = Some [(''a'', JStr ''1'')] \<and>
   fst (Request_send browser 0 (page example_request)) = Normal \<and>
   opened (xports (snd (Request_send browser 0 (page example_request))) 0)
     = Some (''GET'', ''http://x/y?a=1&__async__=true'', True) \<and>
   sent (xports (snd (Request_send browser 0 (page example_request))) 0) = Some None"
proof -
  have h: "new_transport browser = Inr ''XMLHttpRequest''"
    "URI (heap (page example_request) 0) = ''http://x/y''"
    "http_method (heap (page example_request) 0) = ''GET''"
    "data (heap (page example_request) 0) = Some [(''a'', JStr ''1'')]"
    "next_xport (page example_request) = 0"
    by (simp_all add: new_transport_def browser_def page_def example_request_def
          Request_construct_def)
  show ?thesis
    using send_GET_target [OF h(1-4)] h by simp
qed

subsection \<open>Teardown\<close>

text \<open>
  Claim C10. \<^verbatim>\<open>abort()\<close> on a request whose \<^verbatim>\<open>_transport\<close> is still null, as it is from
  construction until \<^verbatim>\<open>send()\<close>, raises a TypeError: \<^verbatim>\<open>_cleanup\<close> ends by calling
  \<^verbatim>\<open>this._transport.abort()\<close> without a guard.
\<close>

theorem abort_before_send_raises:
  assumes "transport (heap w r) = None"
  shows "fst (Request_abort P r w) = Throw TypeError"
  using assms
  by (simp add: Request_abort_def Request_cleanup_def Let_def split: option.splits)

theorem abort_before_send_raises_witness:
  "transport (heap (page example_request) 0) = None \<and>
   fst (Request_abort browser 0 (page example_request)) = Throw TypeError"
proof -
  have h: "transport (heap (page example_request) 0) = None"
    by (simp add: page_def example_request_def Request_construct_def)
  show ?thesis
    using abort_before_send_raises [OF h] h by simp
qed

subsection \<open>Responses\<close>

lemma notified_since_append:
  "invoked (heap w' r) = invoked (heap w r) @ ns \<Longrightarrow> notified_since w w' r = ns"
  by (simp add: notified_since_def)

text \<open>
  Claim C1, as the code has it. In a build with \<^verbatim>\<open>__DEV__\<close> set, or in any build when the
  status is outside 200 to 299: when the handler runs on a request that has been sent and
  has not finished, with the exchange complete (\<^verbatim>\<open>readyState\<close> 4), a body that does not
  start with \<^verbatim>\<open>for (;;);\<close> (an empty body included) and a transport whose \<^verbatim>\<open>abort()\<close>
  returns, the first notification the handler makes is \<^verbatim>\<open>error\<close> with an undefined
  argument, and it makes none on \<^verbatim>\<open>done\<close>: whatever else it notifies is \<^verbatim>\<open>error\<close> without
  argument or \<^verbatim>\<open>finally\<close>, whether or not a subscriber throws.
\<close>

theorem unprefixed_response_fails:
  assumes "DEV P \<or> status (xports w x) < 200 \<or> status (xports w x) \<ge> 300"
    and "\<not> finished (heap w r)"
    and "transport (heap w r) = Some x"
    and "\<forall>w'. xport_abort P w' x = None"
    and "readyState (xports w x) = 4"
    and "\<not> starts_with ''for (;;);'' (responseText (xports w x))"
  shows "invoked (heap (snd (Request_onreadystatechange P r w)) r)
           = invoked (heap w r) @ notified_since w (snd (Request_onreadystatechange P r w)) r \<and>
         take 1 (notified_since w (snd (Request_onreadystatechange P r w)) r)
           = [(''error'', [JUndefined])] \<and>
         set (notified_since w (snd (Request_onreadystatechange P r w)) r)
           \<subseteq> {(''error'', [JUndefined]), (''finally'', [])}"
proof -
  let ?e = "(''error'', [JUndefined])"
  let ?H = "snd (Request_onreadystatechange P r w)"
  have "\<exists>tl. invoked (heap ?H r) = invoked (heap w r) @ ?e # tl
             \<and> set tl \<subseteq> {?e, (''finally'', [])}"
  proof (cases "status (xports w x) < 200 \<or> status (xports w x) \<ge> 300")
    case True
    obtain c w1 where f1: "Request_fail P r JUndefined w = (c, w1)"
      by (cases "Request_fail P r JUndefined w")
    from fail_sent [OF assms(3,4), where e = JUndefined] f1
    obtain tl1 where l1: "invoked (heap w1 r) = invoked (heap w r) @ ?e # tl1"
      and t1: "tl1 = [] \<or> tl1 = [(''finally'', [])]"
      by auto
    show ?thesis
    proof (cases c)
      case Normal
      with True assms(2-6) f1 have "Request_onreadystatechange P r w = (Normal, w1)"
        by (simp add: Request_onreadystatechange_def Request_try_response_def Let_def)
      with l1 t1 show ?thesis by auto
    next
      case (Throw exn)
      let ?w2 = "if DEV P then w1\<lparr>logged := logged w1 @ [exn]\<rparr> else w1"
      have i2: "invoked (heap ?w2 r) = invoked (heap w1 r)"
        by simp
      from Throw True assms(2-6) f1
      have "Request_onreadystatechange P r w = Request_fail P r JUndefined ?w2"
        by (simp add: Request_onreadystatechange_def Request_try_response_def Let_def)
      moreover obtain ns where "invoked (heap (snd (Request_fail P r JUndefined ?w2)) r)
          = invoked (heap ?w2 r) @ ns" and "set ns \<subseteq> {?e, (''finally'', [])}"
        using fail_adds [of P r JUndefined ?w2] by blast
      ultimately have "invoked (heap ?H r) = invoked (heap w r) @ ?e # (tl1 @ ns)"
        and "set (tl1 @ ns) \<subseteq> {?e, (''finally'', [])}"
        using l1 t1 i2 by auto
      then show ?thesis by blast
    qed
  next
    case False
    let ?exn = "if responseText (xports w x) = []
                then response_error (URI (heap w r)) ''empty''
                else response_error (URI (heap w r)) ''invalid''"
    let ?w2 = "w\<lparr>logged := logged w @ [?exn]\<rparr>"
    from False assms(1) have dev: "DEV P"
      by auto
    from False dev assms(2-6) have "Request_try_response P r w = (Caught ?exn, w)"
      by (simp add: Request_try_response_def Let_def)
    then have "Request_onreadystatechange P r w = Request_fail P r JUndefined ?w2"
      using dev by (simp add: Request_onreadystatechange_def Let_def)
    moreover have "transport (heap ?w2 r) = Some x" "invoked (heap ?w2 r) = invoked (heap w r)"
      using assms(3) by simp_all
    ultimately show ?thesis
      using fail_sent [of ?w2 r x P JUndefined] assms(4) by auto
  qed
  then obtain tl where l: "invoked (heap ?H r) = invoked (heap w r) @ ?e # tl"
    and t: "set tl \<subseteq> {?e, (''finally'', [])}"
    by blast
  from l have "notified_since w ?H r = ?e # tl"
    by (rule notified_since_append)
  with l t show ?thesis by simp
qed

theorem unprefixed_response_fails_witness:
  "DEV (browser\<lparr>DEV := True\<rparr>) \<and>
   status (xports (receive 0 4 200 ''{}''
                     (snd (Request_send browser 0 (page example_request)))) 0) = 200 \<and>
   \<not> finished (heap (receive 0 4 200 ''{}'' (snd (Request_send browser 0 (page example_request)))) 0) \<and>
   readyState (xports (receive 0 4 200 ''{}''
                         (snd (Request_send browser 0 (page example_request)))) 0) = 4 \<and>
   \<not> starts_with ''for (;;);'' ''{}'' \<and>
   take 1 (notified_since
             (receive 0 4 200 ''{}'' (snd (Request_send browser 0 (page example_request))))
             (snd (Request_onreadystatechange (browser\<lparr>DEV := True\<rparr>) 0
                (receive 0 4 200 ''{}'' (snd (Request_send browser 0 (page example_request))))))
             0)
     = [(''error'', [JUndefined])]"
proof -
  let ?w = "receive 0 4 200 ''{}'' (snd (Request_send browser 0 (page example_request)))"
  have h: "DEV (browser\<lparr>DEV := True\<rparr>) \<or> status (xports ?w 0) < 200 \<or> status (xports ?w 0) \<ge> 300"
    "\<not> finished (heap ?w 0)"
    "transport (heap ?w 0) = Some 0"
    "\<forall>w'. xport_abort (browser\<lparr>DEV := True\<rparr>) w' 0 = None"
    "readyState (xports ?w 0) = 4"
    "\<not> starts_with ''for (;;);'' (responseText (xports ?w 0))"
    "responseText (xports ?w 0) = ''{}''"
    "status (xports ?w 0) = 200" "DEV (browser\<lparr>DEV := True\<rparr>)"
    by (simp_all add: world_eval)
  show ?thesis
    using unprefixed_response_fails [OF h(1-6)] h by simp
qed

text \<open>
  Against claim C1 as stated, twice. In a production build the handler does not look at
  the prefix: it drops the first nine characters and evaluates the rest, so the body
  \<^verbatim>\<open>123456789{}\<close> with status 200 is a success, \<^verbatim>\<open>done\<close> fires (with an undefined payload),
  then \<^verbatim>\<open>finally\<close>, and \<^verbatim>\<open>error\<close> does not. And in a build with \<^verbatim>\<open>__DEV__\<close> set, on a
  transport whose \<^verbatim>\<open>abort()\<close> throws, teardown throws before the failure path notifies
  anybody: a body without the prefix produces no notification at all.
\<close>

theorem unprefixed_response_counterexample:
  "\<not> starts_with ''for (;;);'' ''123456789{}'' \<and>
   invoked (heap (run browser [Call_send 0, Xhr_change 0 4 200 ''123456789{}'']
                    (page example_request)) 0)
     = [(''done'', [JUndefined]), (''finally'', [])] \<and>
   \<not> starts_with ''for (;;);'' ''oops'' \<and>
   invoked (heap (run (flaky_browser\<lparr>DEV := True\<rparr>)
                    [Call_send 0, Call_send 1, Xhr_change 1 4 200 ''oops'']
                    (page example_request)) 1)
     = []"
  by (simp add: world_eval)

subsection \<open>Turns that are not a send\<close>

lemma timers_owned_iff:
  "timers_owned r w \<longleftrightarrow>
     (\<forall>t < length (timers w). timeout_timer r (timers w ! t) \<longrightarrow>
        timer (heap w r) = Some t \<and> \<not> finished (heap w r))"
  by (auto simp: timers_owned_def list_all_iff)

lemma tidy_refl: "tidy w w"
  by (simp add: tidy_def)

lemma tidy_trans: "tidy w w1 \<Longrightarrow> tidy w1 w2 \<Longrightarrow> tidy w w2"
  unfolding tidy_def
  apply (intro conjI allI impI)
        apply simp
       apply simp
      apply simp
     apply simp
    apply blast
   apply blast
  apply metis
  done

lemma tidy_same: "heap w' = heap w \<Longrightarrow> timers w' = timers w \<Longrightarrow> tidy w w'"
  by (simp add: tidy_def)

lemma tidy_invoke: "tidy w (snd (invoke P r name args w))"
  by (simp add: tidy_def)

lemma tidy_defer_rethrow: "tidy w (snd (JX_defer (Rethrow e) ms w))"
  by (auto simp: tidy_def nth_append timeout_timer_def)

lemma tidy_cleanup: "tidy w (snd (Request_cleanup P r w))"
  unfolding tidy_def
  by (auto simp: cleanup_heap cleanup_timers stop_timer_def timeout_timer_def nth_list_update
      split: option.splits if_splits)

lemma owned_tidy:
  assumes "timers_owned r w" and "tidy w w'"
  shows "timers_owned r w'"
  using assms unfolding timers_owned_iff tidy_def by metis

lemma affects_trans:
  assumes "affects P r w1 w2" shows "affects P r w w1 \<Longrightarrow> affects P r w w2"
  using assms by (induction rule: affects.induct) (auto intro: affects.intros)

lemma affects_cleanup: "affects P r w (snd (Request_cleanup P r w))"
  by (intro affects.intros)

lemma affects_then_finally:
  "affects P r w w1 \<Longrightarrow> affects P r w (snd (invoke_then_finally P r name args w1))"
  by (auto simp: invoke_then_finally_unfold intro: affects.intros)

lemma affects_fail: "affects P r w (snd (Request_fail P r e w))"
  by (auto simp: fail_unfold intro: affects_then_finally affects.intros)

lemma affects_done: "affects P r w (snd (Request_done P r response w))"
proof (cases "Request_cleanup P r w")
  case (Pair c w1)
  then have "affects P r w w1"
    using affects_cleanup [of P r w] by simp
  then show ?thesis
    using Pair
    by (cases c)
       (auto simp: Request_done_def intro: affects_then_finally affects.intros
          split: sum.splits option.splits)
qed

lemma affects_deliver: "affects P r w (snd (Request_deliver P r response w))"
proof (cases "get_prop response ''error''")
  case (Inl e)
  then show ?thesis by (simp add: Request_deliver_def affects.unchanged)
next
  case (Inr err)
  show ?thesis
  proof (cases "truthy err")
    case True
    with Inr show ?thesis by (simp add: Request_deliver_def affects_fail)
  next
    case False
    show ?thesis
    proof (cases "get_prop response ''javelin_metadata''")
      case (Inl e)
      with Inr False show ?thesis by (simp add: Request_deliver_def affects.unchanged)
    next
      case md: (Inr md)
      let ?w1 = "w\<lparr>merged := merged w @ [js_or md (JObj [])]\<rparr>"
      have a1: "affects P r w ?w1"
        by (intro affects.intros)
      have a2: "affects P r w (snd (Request_done P r response ?w1))"
        using affects_trans [OF affects_done a1] .
      obtain c w2 where d: "Request_done P r response ?w1 = (c, w2)"
        by (cases "Request_done P r response ?w1")
      with a2 have "affects P r w w2" by simp
      then show ?thesis
        using Inr False md d
        by (cases c) (auto simp: Request_deliver_def Let_def intro: affects.intros split: sum.splits)
    qed
  qed
qed

lemma affects_try_response: "affects P r w (snd (Request_try_response P r w))"
proof -
  obtain c w1 where f: "Request_fail P r JUndefined w = (c, w1)"
    by (cases "Request_fail P r JUndefined w")
  then have "affects P r w w1"
    using affects_fail [of P r w JUndefined] by simp
  then show ?thesis
    using f
    by (cases c)
       (auto simp: Request_try_response_def Let_def intro: affects.intros
          split: option.splits sum.splits)
qed

lemma affects_onreadystatechange: "affects P r w (snd (Request_onreadystatechange P r w))"
proof -
  obtain tr w1 where t: "Request_try_response P r w = (tr, w1)"
    by (cases "Request_try_response P r w")
  then have a1: "affects P r w w1"
    using affects_try_response [of P r w] by simp
  show ?thesis
  proof (cases tr)
    case Returned
    with t a1 show ?thesis by (simp add: Request_onreadystatechange_def)
  next
    case (Caught exn)
    let ?w2 = "if DEV P then w1\<lparr>logged := logged w1 @ [exn]\<rparr> else w1"
    have "affects P r w ?w2"
      using a1 by (auto intro: affects.intros)
    then have "affects P r w (snd (Request_fail P r JUndefined ?w2))"
      using affects_trans [OF affects_fail] by blast
    with t Caught show ?thesis
      by (simp add: Request_onreadystatechange_def Let_def)
  next
    case (Evaluated response)
    obtain c w2 where d: "Request_deliver P r response w1 = (c, w2)"
      by (cases "Request_deliver P r response w1")
    then have "affects P r w w2"
      using affects_trans [OF affects_deliver a1, of response] by simp
    with t Evaluated d show ?thesis
      by (cases c) (auto simp: Request_onreadystatechange_def intro: affects.intros)
  qed
qed

lemma affects_tidy: "affects P r w w' \<Longrightarrow> tidy w w'"
proof (induction rule: affects.induct)
  case (unchanged w)
  show ?case by (rule tidy_refl)
next
  case (torn_down w w1)
  then show ?case using tidy_cleanup tidy_trans by blast
next
  case (notified w w1 name args)
  then show ?case using tidy_invoke tidy_trans by blast
next
  case (has_merged w w1 m)
  then show ?case using tidy_same [of "w1\<lparr>merged := m\<rparr>" w1] tidy_trans by simp
next
  case (has_initialized w w1 b)
  then show ?case using tidy_same [of "w1\<lparr>behaviors := b\<rparr>" w1] tidy_trans by simp
next
  case (has_logged w w1 l)
  then show ?case using tidy_same [of "w1\<lparr>logged := l\<rparr>" w1] tidy_trans by simp
next
  case (rethrown w w1 e ms)
  then show ?case using tidy_defer_rethrow tidy_trans by blast
qed

lemma affects_frame: "affects P r w w' \<Longrightarrow> q \<noteq> r \<Longrightarrow> heap w' q = heap w q"
  by (induction rule: affects.induct) (simp_all add: cleanup_heap JX_defer_def)

lemma affects_fields:
  assumes "affects P r w w'"
  shows "transport (heap w' q) = transport (heap w q)"
    and "timer (heap w' q) = timer (heap w q)"
    and "xhrkey (heap w' q) = xhrkey (heap w q)"
    and "finished (heap w q) \<Longrightarrow> finished (heap w' q)"
    and "length (xhr w') = length (xhr w)"
    and "next_xport w' = next_xport w"
  using assms
  by (induction rule: affects.induct)
     (auto simp: cleanup_heap cleanup_xhr cleanup_rest JX_defer_def split: option.splits)

lemma abort_invoked: "invoked (heap (snd (Request_abort P r w)) q) = invoked (heap w q)"
  by (simp add: Request_abort_def cleanup_heap)

lemma affects_abort: "affects P r w (snd (Request_abort P r w))"
  by (simp add: Request_abort_def affects_cleanup)

lemma shutdown_loop_tidy: "tidy w (shutdown_loop P ii w)"
proof (induction P ii w rule: shutdown_loop.induct)
  case (1 P ii w)
  show ?case
  proof (cases "ii < length (xhr w)")
    case False
    then show ?thesis by (simp add: shutdown_loop.simps [of P ii w] tidy_refl)
  next
    case True
    let ?w1 = "case xhr w ! ii of None \<Rightarrow> w | Some r \<Rightarrow> snd (Request_abort P r w)"
    have "tidy w ?w1"
      by (auto simp: tidy_refl affects_tidy [OF affects_abort] split: option.splits)
    moreover have "tidy ?w1 (shutdown_loop P (Suc ii) ?w1)"
      using 1 True by simp
    ultimately show ?thesis
      using True by (simp add: shutdown_loop.simps [of P ii w] tidy_trans)
  qed
qed

lemma shutdown_loop_invoked: "invoked (heap (shutdown_loop P ii w) q) = invoked (heap w q)"
proof (induction P ii w rule: shutdown_loop.induct)
  case (1 P ii w)
  show ?case
  proof (cases "ii < length (xhr w)")
    case False
    then show ?thesis by (simp add: shutdown_loop.simps [of P ii w])
  next
    case True
    let ?w1 = "case xhr w ! ii of None \<Rightarrow> w | Some r \<Rightarrow> snd (Request_abort P r w)"
    have "invoked (heap ?w1 q) = invoked (heap w q)"
      by (simp add: abort_invoked split: option.splits)
    moreover have "invoked (heap (shutdown_loop P (Suc ii) ?w1) q) = invoked (heap ?w1 q)"
      using 1 True by simp
    ultimately show ?thesis
      using True by (simp add: shutdown_loop.simps [of P ii w])
  qed
qed

lemma shutdown_tidy: "tidy w (Request_shutdown P w)"
  using shutdown_loop_tidy [of w P 0]
    tidy_same [of "(shutdown_loop P 0 w)\<lparr>xhr := []\<rparr>" "shutdown_loop P 0 w"]
  by (simp add: Request_shutdown_def tidy_trans)

lemma shutdown_invoked: "invoked (heap (Request_shutdown P w) q) = invoked (heap w q)"
  by (simp add: Request_shutdown_def shutdown_loop_invoked)

lemma top_level_heap [simp]: "heap (top_level cw) = heap (snd cw)"
  and top_level_timers [simp]: "timers (top_level cw) = timers (snd cw)"
  by (cases cw; cases "fst cw"; simp add: top_level_def)+

lemma tidy_top_level: "tidy w (snd cw) \<Longrightarrow> tidy w (top_level cw)"
  using tidy_same [of "top_level cw" "snd cw"] by (simp add: tidy_trans)

lemma onreadystatechange_finished:
  "finished (heap w r) \<Longrightarrow> Request_onreadystatechange P r w = (Normal, w)"
  by (simp add: Request_onreadystatechange_def Request_try_response_def)

lemma stopped_nth:
  assumes "timeout_timer q (xs[t := (xs ! t)\<lparr>pending := False\<rparr>] ! ta)" and "ta < length xs"
  shows "timeout_timer q (xs ! ta) \<and> ta \<noteq> t"
  using assms by (cases "ta = t") (auto simp: timeout_timer_def)

lemma step_tidy:
  assumes "\<forall>q. a \<noteq> Call_send q"
  shows "tidy w (step P a w)"
proof (cases a)
  case (Call_send q)
  with assms show ?thesis by simp
next
  case (Call_abort q)
  then show ?thesis
    by (simp add: step_def tidy_top_level affects_tidy [OF affects_abort])
next
  case (Xhr_change x rs st body)
  let ?w1 = "receive x rs st body w"
  have t1: "tidy w ?w1"
    by (rule tidy_same) (simp_all add: receive_def)
  show ?thesis
  proof (cases "onreadystatechange (xports ?w1 x)")
    case None
    with Xhr_change t1 show ?thesis by (simp add: step_def Let_def)
  next
    case (Some q)
    have "tidy ?w1 (top_level (Request_onreadystatechange P q ?w1))"
      by (intro tidy_top_level affects_tidy [OF affects_onreadystatechange])
    with Xhr_change Some t1 show ?thesis
      by (simp add: step_def Let_def) (rule tidy_trans)
  qed
next
  case (Timer_fires t)
  show ?thesis
  proof (cases "t < length (timers w) \<and> pending (timers w ! t)")
    case False
    with Timer_fires show ?thesis by (auto simp: step_def tidy_refl)
  next
    case True
    let ?w1 = "w\<lparr>timers := (timers w)[t := (timers w ! t)\<lparr>pending := False\<rparr>]\<rparr>"
    have t1: "tidy w ?w1"
      unfolding tidy_def using stopped_nth [of _ "timers w" t] by auto
    have "tidy ?w1 (top_level (run_callback P (callback (timers w ! t)) ?w1))"
      by (intro tidy_top_level)
         (auto simp: run_callback_def tidy_refl affects_tidy [OF affects_fail] split: callback.splits)
    with Timer_fires True t1 show ?thesis
      by (simp add: step_def) (rule tidy_trans)
  qed
next
  case Unload
  then show ?thesis by (simp add: step_def shutdown_tidy)
qed

subsection \<open>Teardown twice\<close>

lemma cleanup_twice:
  "heap (snd (Request_cleanup P r (snd (Request_cleanup P r w)))) = heap (snd (Request_cleanup P r w))"
  "xhr (snd (Request_cleanup P r (snd (Request_cleanup P r w)))) = xhr (snd (Request_cleanup P r w))"
  "timers (snd (Request_cleanup P r (snd (Request_cleanup P r w)))) = timers (snd (Request_cleanup P r w))"
    apply (simp add: cleanup_heap)
   apply (simp add: cleanup_xhr cleanup_heap split: option.splits)
  apply (simp add: cleanup_timers cleanup_heap stop_timer_def split: option.splits)
  done

lemma abort_sent:
  "transport (heap w r) = Some x \<Longrightarrow> fst (Request_abort P r w) = platform_abort P r w x"
  by (simp add: Request_abort_def cleanup_fst platform_abort_def)

text \<open>
  Claim C5, as the code has it. On a request that has been sent, \<^verbatim>\<open>abort()\<close> notifies
  nobody, on any platform: not the first call, not a second, not one after the response
  handler or the failure path has run. A second \<^verbatim>\<open>abort()\<close> leaves the requests, the
  registry and the timers as the first left them. And each of these calls completes as
  the platform's \<^verbatim>\<open>abort()\<close> on the transport does: normally where that returns, with its
  exception where it throws.
\<close>

theorem abort_is_idempotent:
  assumes "transport (heap w r) = Some x"
  shows "fst (Request_abort P r w) = platform_abort P r w x \<and>
         invoked (heap (snd (Request_abort P r w)) q) = invoked (heap w q) \<and>
         fst (Request_abort P r (snd (Request_abort P r w)))
           = platform_abort P r (snd (Request_abort P r w)) x \<and>
         invoked (heap (snd (Request_abort P r (snd (Request_abort P r w)))) q) = invoked (heap w q) \<and>
         heap (snd (Request_abort P r (snd (Request_abort P r w)))) = heap (snd (Request_abort P r w)) \<and>
         xhr (snd (Request_abort P r (snd (Request_abort P r w)))) = xhr (snd (Request_abort P r w)) \<and>
         timers (snd (Request_abort P r (snd (Request_abort P r w)))) = timers (snd (Request_abort P r w)) \<and>
         fst (Request_abort P r (snd (Request_onreadystatechange P r w)))
           = platform_abort P r (snd (Request_onreadystatechange P r w)) x \<and>
         invoked (heap (snd (Request_abort P r (snd (Request_onreadystatechange P r w)))) q)
           = invoked (heap (snd (Request_onreadystatechange P r w)) q) \<and>
         fst (Request_abort P r (snd (Request_fail P r e w)))
           = platform_abort P r (snd (Request_fail P r e w)) x \<and>
         invoked (heap (snd (Request_abort P r (snd (Request_fail P r e w)))) q)
           = invoked (heap (snd (Request_fail P r e w)) q)"
proof -
  have t1: "transport (heap (snd (Request_abort P r w)) r) = Some x"
    using assms by (simp add: Request_abort_def cleanup_heap)
  have t2: "transport (heap (snd (Request_onreadystatechange P r w)) r) = Some x"
    using affects_fields(1) [OF affects_onreadystatechange [of P r w], of r] assms by simp
  have t3: "transport (heap (snd (Request_fail P r e w)) r) = Some x"
    using affects_fields(1) [OF affects_fail [of P r w e], of r] assms by simp
  show ?thesis
    using abort_sent [OF assms, of P] abort_sent [OF t1, of P] abort_sent [OF t2, of P]
      abort_sent [OF t3, of P]
    by (simp add: abort_invoked) (simp add: Request_abort_def cleanup_twice)
qed

theorem abort_is_idempotent_witness:
  "transport (heap (snd (Request_send browser 0 (page example_request))) 0) = Some 0 \<and>
   fst (Request_abort browser 0 (snd (Request_abort browser 0
          (snd (Request_send browser 0 (page example_request)))))) = Normal \<and>
   invoked (heap (snd (Request_abort browser 0 (snd (Request_abort browser 0
          (snd (Request_send browser 0 (page example_request))))))) 0) = []"
proof -
  let ?w = "snd (Request_send browser 0 (page example_request))"
  have h: "transport (heap ?w 0) = Some 0"
    "invoked (heap ?w 0) = []"
    by (simp_all add: world_eval)
  have p: "platform_abort browser 0 w' 0 = Normal" for w'
    by (simp add: platform_abort_def browser_def)
  show ?thesis
    using abort_is_idempotent [OF h(1), of browser 0] h p by simp
qed

text \<open>
  Against claim C5 as stated: \<^verbatim>\<open>_cleanup\<close> calls the platform's \<^verbatim>\<open>abort()\<close> without a
  guard, so on a transport whose \<^verbatim>\<open>abort()\<close> throws, \<^verbatim>\<open>abort()\<close> on the sent request raises
  that exception.
\<close>

theorem abort_raises_counterexample:
  "transport (heap (run flaky_browser [Call_send 0, Call_send 1] (page example_request)) 1) = Some 1 \<and>
   fst (Request_abort flaky_browser 1
          (run flaky_browser [Call_send 0, Call_send 1] (page example_request)))
     = Throw (JsError ''abort failed'')"
  by (simp add: world_eval)

subsection \<open>Timers\<close>

lemma send_heap_other: "q \<noteq> r \<Longrightarrow> heap (snd (Request_send P q w)) r = heap w r"
  by (simp add: Request_send_def Let_def split_def split: sum.splits option.splits)

lemma send_timers:
  "timers (snd (Request_send P q w)) =
     (case new_transport P of
        Inl e \<Rightarrow> timers w
      | Inr k \<Rightarrow>
          (case timeout (heap w q) of
             None \<Rightarrow> timers w
           | Some ms \<Rightarrow>
               if ms = 0 then timers w
               else timers w @ [\<lparr>callback = Fail_bound q (JNum ERROR_TIMEOUT), delay = ms,
                                 pending = True\<rparr>]))"
  by (simp add: Request_send_def Let_def split_def split: sum.splits option.splits)

lemma send_fields:
  "finished (heap (snd (Request_send P q w)) q) = finished (heap w q)"
  "invoked (heap (snd (Request_send P q w)) q) = invoked (heap w q)"
  "transport (heap (snd (Request_send P q w)) q) =
     (case new_transport P of Inl e \<Rightarrow> transport (heap w q) | Inr k \<Rightarrow> Some (next_xport w))"
  "timer (heap (snd (Request_send P q w)) q) =
     (case new_transport P of
        Inl e \<Rightarrow> timer (heap w q)
      | Inr k \<Rightarrow>
          (case timeout (heap w q) of
             None \<Rightarrow> timer (heap w q)
           | Some ms \<Rightarrow> if ms = 0 then timer (heap w q) else Some (length (timers w))))"
  by (simp_all add: Request_send_def Let_def split_def split: sum.splits option.splits)












lemma run_append: "run P (as @ bs) w = run P bs (run P as w)"
  by (induction as arbitrary: w) simp_all

lemma tidy_fields:
  assumes "tidy w w'"
  shows "transport (heap w' q) = transport (heap w q)"
    and "timer (heap w' q) = timer (heap w q)"
    and "finished (heap w q) \<Longrightarrow> finished (heap w' q)"
  using assms by (simp_all add: tidy_def)



lemma xhr_change_finished:
  assumes "finished (heap w r)"
  shows "heap (step P (Xhr_change x rs st body) w) r = heap w r"
proof -
  let ?w1 = "receive x rs st body w"
  have h1: "heap ?w1 = heap w" by (simp add: receive_def)
  show ?thesis
  proof (cases "onreadystatechange (xports ?w1 x)")
    case None
    then show ?thesis using h1 by (simp add: step_def Let_def)
  next
    case (Some q)
    show ?thesis
    proof (cases "q = r")
      case True
      with assms h1 have "Request_onreadystatechange P q ?w1 = (Normal, ?w1)"
        by (simp add: onreadystatechange_finished)
      with Some h1 show ?thesis by (simp add: step_def Let_def)
    next
      case False
      then have "heap (snd (Request_onreadystatechange P q ?w1)) r = heap ?w1 r"
        using affects_frame [OF affects_onreadystatechange] by simp
      with Some h1 show ?thesis by (simp add: step_def Let_def)
    qed
  qed
qed

lemma timer_fires_idle: "\<not> pending (timers w ! t) \<Longrightarrow> step P (Timer_fires t) w = w"
  by (simp add: step_def)


subsection \<open>After the end\<close>

lemma owned_send_fresh:
  assumes "fresh r w"
  shows "timers_owned r (step P (Call_send r) w)"
proof -
  let ?w1 = "snd (Request_send P r w)"
  from assms have none: "\<And>t. t < length (timers w) \<Longrightarrow> \<not> timeout_timer r (timers w ! t)"
    and nf: "\<not> finished (heap w r)"
    by (auto simp: fresh_def list_all_length)
  have "timers_owned r ?w1"
    unfolding timers_owned_iff
  proof (intro allI impI)
    fix t
    assume lt: "t < length (timers ?w1)" and tt: "timeout_timer r (timers ?w1 ! t)"
    have old: "t < length (timers w) \<Longrightarrow> timers ?w1 ! t = timers w ! t"
      by (simp add: send_timers nth_append split: sum.splits option.splits)
    with none tt have "\<not> t < length (timers w)" by auto
    with lt have "timer (heap ?w1 r) = Some t"
      by (auto simp: send_timers send_fields split: sum.splits option.splits if_splits)
    with nf show "timer (heap ?w1 r) = Some t \<and> \<not> finished (heap ?w1 r)"
      by (simp add: send_fields)
  qed
  then show ?thesis
    by (simp add: step_def timers_owned_iff)
qed

lemma owned_step:
  assumes "timers_owned r w" and "a \<noteq> Call_send r"
  shows "timers_owned r (step P a w)"
proof (cases "\<exists>q. a = Call_send q")
  case False
  then show ?thesis using owned_tidy [OF assms(1) step_tidy] by simp
next
  case True
  then obtain q where a: "a = Call_send q" by blast
  with assms have qr: "q \<noteq> r" by simp
  let ?w1 = "snd (Request_send P q w)"
  have "timers_owned r ?w1"
    unfolding timers_owned_iff
  proof (intro allI impI)
    fix t
    assume lt: "t < length (timers ?w1)" and tt: "timeout_timer r (timers ?w1 ! t)"
    have "t < length (timers w) \<and> timers ?w1 ! t = timers w ! t"
    proof (cases "t < length (timers w)")
      case True
      then show ?thesis
        by (simp add: send_timers nth_append split: sum.splits option.splits)
    next
      case False
      with lt have "callback (timers ?w1 ! t) = Fail_bound q (JNum ERROR_TIMEOUT)"
        by (auto simp: send_timers nth_append split: sum.splits option.splits if_splits)
      with tt qr show ?thesis by (simp add: timeout_timer_def)
    qed
    with tt assms(1) have "timer (heap w r) = Some t \<and> \<not> finished (heap w r)"
      unfolding timers_owned_iff by metis
    then show "timer (heap ?w1 r) = Some t \<and> \<not> finished (heap ?w1 r)"
      using qr by (simp add: send_heap_other)
  qed
  with a show ?thesis by (simp add: step_def timers_owned_iff)
qed

lemma quiet_step:
  assumes "timers_owned r w" and "finished (heap w r)" and "a \<noteq> Call_send r"
  shows "invoked (heap (step P a w) r) = invoked (heap w r) \<and> finished (heap (step P a w) r)"
proof (cases a)
  case (Call_send q)
  with assms have "q \<noteq> r" by simp
  with Call_send assms(2) show ?thesis by (simp add: step_def send_heap_other)
next
  case (Call_abort q)
  with assms(2) show ?thesis
    using affects_fields(4) [OF affects_abort [of P q w], of r]
    by (simp add: step_def abort_invoked)
next
  case (Xhr_change x rs st body)
  with assms(2) show ?thesis by (simp add: xhr_change_finished)
next
  case (Timer_fires t)
  show ?thesis
  proof (cases "t < length (timers w) \<and> pending (timers w ! t)")
    case False
    with Timer_fires assms(2) show ?thesis by (auto simp: step_def)
  next
    case True
    let ?w1 = "w\<lparr>timers := (timers w)[t := (timers w ! t)\<lparr>pending := False\<rparr>]\<rparr>"
    show ?thesis
    proof (cases "callback (timers w ! t)")
      case (Rethrow e)
      with Timer_fires True assms(2) show ?thesis
        by (simp add: step_def run_callback_def)
    next
      case (Fail_bound q e)
      have "q \<noteq> r"
      proof
        assume "q = r"
        with Fail_bound True have "timeout_timer r (timers w ! t)"
          by (simp add: timeout_timer_def)
        with assms(1,2) True show False by (simp add: timers_owned_iff)
      qed
      then have "heap (snd (Request_fail P q e ?w1)) r = heap ?w1 r"
        using affects_frame [OF affects_fail] by simp
      with Timer_fires True Fail_bound assms(2) show ?thesis
        by (simp add: step_def run_callback_def)
    qed
  qed
next
  case Unload
  with assms(2) show ?thesis
    using tidy_fields(3) [OF shutdown_tidy [of w P], of r]
    by (simp add: step_def shutdown_invoked)
qed

lemma quiet_run:
  assumes "Call_send r \<notin> set as" and "timers_owned r w" and "finished (heap w r)"
  shows "invoked (heap (run P as w) r) = invoked (heap w r)"
  using assms
proof (induction as arbitrary: w)
  case Nil
  show ?case by simp
next
  case (Cons a as)
  then have a: "a \<noteq> Call_send r" and as: "Call_send r \<notin> set as" by auto
  note q = quiet_step [OF Cons.prems(2,3) a, of P]
  have "invoked (heap (run P as (step P a w)) r) = invoked (heap (step P a w) r)"
    using Cons.IH [OF as owned_step [OF Cons.prems(2) a]] q by simp
  with q show ?case by simp
qed

lemma owned_run:
  assumes "Call_send r \<notin> set as" and "timers_owned r w"
  shows "timers_owned r (run P as w)"
  using assms
proof (induction as arbitrary: w)
  case Nil
  then show ?case by simp
next
  case (Cons a as)
  then show ?case using owned_step [of r w a P] by auto
qed

text \<open>
  Claim C2, as the code has it. Take a request that has not finished and has no failure
  timer pending, call \<^verbatim>\<open>send()\<close> on it, and let any turns follow in which it is not sent
  again: state changes of transports, timers firing, \<^verbatim>\<open>abort()\<close>, page unload, other
  requests being sent. Once the request is finished, no later such turn adds a
  notification to it.
\<close>

theorem no_callback_after_finished:
  assumes "fresh r w0"
    and "Call_send r \<notin> set as1" and "Call_send r \<notin> set as2"
    and "finished (heap (run P (Call_send r # as1) w0) r)"
  shows "invoked (heap (run P (Call_send r # as1 @ as2) w0) r)
           = invoked (heap (run P (Call_send r # as1) w0) r)"
proof -
  let ?w1 = "run P (Call_send r # as1) w0"
  have "timers_owned r ?w1"
    using owned_run [OF assms(2) owned_send_fresh [OF assms(1)]] by simp
  then have "invoked (heap (run P as2 ?w1) r) = invoked (heap ?w1 r)"
    using quiet_run [OF assms(3) _ assms(4)] by blast
  then show ?thesis
    using run_append [of P "Call_send r # as1" as2 w0] by simp
qed

theorem no_callback_after_finished_witness:
  "fresh 0 (page example_request) \<and>
   finished (heap (run browser [Call_send 0, Xhr_change 0 4 200 ''for (;;);{}'']
                     (page example_request)) 0) \<and>
   invoked (heap (run browser
                    ([Call_send 0, Xhr_change 0 4 200 ''for (;;);{}''] @
                     [Xhr_change 0 4 500 [], Timer_fires 0, Call_abort 0, Unload])
                    (page example_request)) 0)
     = [(''done'', [JUndefined]), (''finally'', [])]"
proof -
  let ?pg = "page example_request"
  have h: "fresh 0 ?pg"
    "Call_send 0 \<notin> set [Xhr_change 0 4 200 ''for (;;);{}'']"
    "Call_send 0 \<notin> set [Xhr_change 0 4 500 [], Timer_fires 0, Call_abort 0, Unload]"
    by (simp_all add: fresh_def page_def example_request_def Request_construct_def)
  have g: "finished (heap (run browser (Call_send 0 # [Xhr_change 0 4 200 ''for (;;);{}'']) ?pg) 0)"
    "invoked (heap (run browser (Call_send 0 # [Xhr_change 0 4 200 ''for (;;);{}'']) ?pg) 0)
       = [(''done'', [JUndefined]), (''finally'', [])]"
    by (simp_all add: world_eval)
  show ?thesis
    using no_callback_after_finished [OF h g(1)] h(1) g by simp
qed

text \<open>
  Against claim C2 as stated: the failure path does not test the finished flag; only
  the cancelling of the timer in teardown keeps it from running. A request that is
  sent, aborted and sent again is finished and has a live timer from the second
  \<^verbatim>\<open>send()\<close>; when that timer fires, \<^verbatim>\<open>error\<close> and \<^verbatim>\<open>finally\<close> are notified.
\<close>

theorem resend_timeout_counterexample:
  "finished (heap (run browser [Call_send 0, Call_abort 0, Call_send 0] (page example_request)) 0) \<and>
   invoked (heap (run browser [Call_send 0, Call_abort 0, Call_send 0] (page example_request)) 0) = [] \<and>
   invoked (heap (run browser [Call_send 0, Call_abort 0, Call_send 0, Timer_fires 1]
                    (page example_request)) 0)
     = [(''error'', [JNum (- 9000)]), (''finally'', [])]"
  by (simp add: world_eval)

subsection \<open>The timeout\<close>




subsection \<open>Shutdown\<close>

lemma registry_ok_iff:
  "registry_ok w \<longleftrightarrow>
     (\<forall>i < length (xhr w). \<forall>r. xhr w ! i = Some r \<longrightarrow>
        (\<exists>x. transport (heap w r) = Some x) \<and>
        (\<exists>k. xhrkey (heap w r) = Some k \<and> k < length (xhr w) \<and>
             (xhr w ! k = None \<or> xhr w ! k = Some r)))"
proof -
  have a: "(case e of None \<Rightarrow> True | Some r \<Rightarrow> A r) \<longleftrightarrow> (\<forall>r. e = Some r \<longrightarrow> A r)"
    for e :: "nat option" and A
    by (cases e) auto
  have b: "(case e of None \<Rightarrow> False | Some k \<Rightarrow> B k) \<longleftrightarrow> (\<exists>k. e = Some k \<and> B k)"
    for e :: "nat option" and B
    by (cases e) auto
  show ?thesis
    by (simp add: registry_ok_def list_all_length a b)
qed

lemma cleanup_registry_ok:
  assumes "registry_ok w"
  shows "registry_ok (snd (Request_cleanup P q w))"
proof (cases "xhrkey (heap w q)")
  case None
  with assms show ?thesis
    by (auto simp: registry_ok_iff cleanup_xhr cleanup_heap)
next
  case (Some k)
  show ?thesis
    unfolding registry_ok_iff
  proof (intro allI impI)
    fix i r
    assume lt: "i < length (xhr (snd (Request_cleanup P q w)))"
      and e: "xhr (snd (Request_cleanup P q w)) ! i = Some r"
    from lt have lt': "i < length (xhr w)" by (simp add: cleanup_xhr Some)
    from e Some lt' have "xhr w ! i = Some r"
      by (cases "i = k") (simp_all add: cleanup_xhr)
    with assms lt' obtain x k' where x: "transport (heap w r) = Some x"
      and k': "xhrkey (heap w r) = Some k'" "k' < length (xhr w)"
        "xhr w ! k' = None \<or> xhr w ! k' = Some r"
      unfolding registry_ok_iff by blast
    have "xhr (snd (Request_cleanup P q w)) ! k' = None
          \<or> xhr (snd (Request_cleanup P q w)) ! k' = Some r"
      using k' Some by (cases "k' = k") (simp_all add: cleanup_xhr)
    moreover have "transport (heap (snd (Request_cleanup P q w)) r) = Some x"
      "xhrkey (heap (snd (Request_cleanup P q w)) r) = Some k'"
      by (cases "r = q"; use x k' in \<open>simp add: cleanup_heap\<close>)+
    moreover have "k' < length (xhr (snd (Request_cleanup P q w)))"
      using k' by (simp add: cleanup_xhr Some)
    ultimately
    show "(\<exists>x. transport (heap (snd (Request_cleanup P q w)) r) = Some x) \<and>
          (\<exists>k. xhrkey (heap (snd (Request_cleanup P q w)) r) = Some k \<and>
               k < length (xhr (snd (Request_cleanup P q w))) \<and>
               (xhr (snd (Request_cleanup P q w)) ! k = None \<or>
                xhr (snd (Request_cleanup P q w)) ! k = Some r))"
      by blast
  qed
qed

lemma cleanup_aborts_mono: "aborts (xports w x) \<le> aborts (xports (snd (Request_cleanup P q w)) x)"
  by (simp add: cleanup_xports split: option.splits)

lemma cleanup_aborts_own:
  "transport (heap w q) = Some x \<Longrightarrow> aborts (xports w x) < aborts (xports (snd (Request_cleanup P q w)) x)"
  by (simp add: cleanup_xports)

lemma shutdown_loop_aborts_mono:
  "aborts (xports w x) \<le> aborts (xports (shutdown_loop P ii w) x)"
proof (induction P ii w rule: shutdown_loop.induct)
  case (1 P ii w)
  show ?case
  proof (cases "ii < length (xhr w)")
    case False
    then show ?thesis by (simp add: shutdown_loop.simps [of P ii w])
  next
    case True
    let ?w1 = "case xhr w ! ii of None \<Rightarrow> w | Some r \<Rightarrow> snd (Request_abort P r w)"
    have "aborts (xports w x) \<le> aborts (xports ?w1 x)"
      by (simp add: Request_abort_def cleanup_aborts_mono split: option.splits)
    moreover have "aborts (xports ?w1 x) \<le> aborts (xports (shutdown_loop P (Suc ii) ?w1) x)"
      using 1 True by simp
    ultimately show ?thesis
      using True by (simp add: shutdown_loop.simps [of P ii w])
  qed
qed

lemma aborted_now:
  assumes "transport (heap w r) = Some x"
  shows "aborted_since w (shutdown_loop P ii (snd (Request_abort P r w))) r"
proof -
  let ?w1 = "snd (Request_abort P r w)"
  have "finished (heap ?w1 r)"
    by (simp add: Request_abort_def cleanup_heap)
  then have "finished (heap (shutdown_loop P ii ?w1) r)"
    using tidy_fields(3) [OF shutdown_loop_tidy] by blast
  moreover have "aborts (xports w x) < aborts (xports ?w1 x)"
    using assms by (simp add: Request_abort_def cleanup_aborts_own)
  then have "aborts (xports w x) < aborts (xports (shutdown_loop P ii ?w1) x)"
    using shutdown_loop_aborts_mono [of ?w1 x P ii] by simp
  ultimately show ?thesis
    using assms by (simp add: aborted_since_def)
qed

lemma shutdown_loop_aborts:
  assumes "registry_ok w" and "ii \<le> i" and "i < length (xhr w)" and "xhr w ! i = Some r"
  shows "aborted_since w (shutdown_loop P ii w) r"
  using assms
proof (induction P ii w rule: shutdown_loop.induct)
  case (1 P ii w)
  from "1.prems" have lt: "ii < length (xhr w)" by simp
  from "1.prems" obtain x k where x: "transport (heap w r) = Some x"
    and k: "xhrkey (heap w r) = Some k"
    unfolding registry_ok_iff by blast
  let ?w1 = "case xhr w ! ii of None \<Rightarrow> w | Some q \<Rightarrow> snd (Request_abort P q w)"
  have unfold: "shutdown_loop P ii w = shutdown_loop P (Suc ii) ?w1"
    using lt by (simp add: shutdown_loop.simps [of P ii w])
  show ?case
  proof (cases "xhr w ! ii")
    case None
    with "1.prems" have "ii \<noteq> i" by auto
    with "1.prems" have "Suc ii \<le> i" by simp
    with None show ?thesis
      using "1.IH" [OF lt] "1.prems" unfold by simp
  next
    case (Some q)
    then have w1: "?w1 = snd (Request_abort P q w)" by simp
    show ?thesis
    proof (cases "q = r")
      case True
      then show ?thesis
        using aborted_now [OF x, of P "Suc ii"] unfold w1 by simp
    next
      case False
      with Some "1.prems" have "ii \<noteq> i" by auto
      with "1.prems" have le: "Suc ii \<le> i" by simp
      from "1.prems"(1) lt Some obtain kq where kq: "xhrkey (heap w q) = Some kq"
        and slot: "xhr w ! kq = None \<or> xhr w ! kq = Some q"
        unfolding registry_ok_iff by blast
      from slot False "1.prems"(4) have "kq \<noteq> i" by auto
      then have e: "xhr ?w1 ! i = Some r"
        using w1 kq "1.prems"(4) by (simp add: Request_abort_def cleanup_xhr)
      have ok: "registry_ok ?w1"
        using w1 cleanup_registry_ok [OF "1.prems"(1)] by (simp add: Request_abort_def)
      have len: "i < length (xhr ?w1)"
        using w1 "1.prems"(3) by (simp add: Request_abort_def cleanup_xhr split: option.splits)
      have a: "aborted_since ?w1 (shutdown_loop P (Suc ii) ?w1) r"
        using "1.IH" [OF lt ok le len e] .
      have "transport (heap ?w1 r) = Some x"
        using w1 x False by (simp add: Request_abort_def cleanup_heap)
      moreover have "aborts (xports w x) \<le> aborts (xports ?w1 x)"
        using w1 by (simp add: Request_abort_def cleanup_aborts_mono)
      ultimately show ?thesis
        using a x unfold by (simp add: aborted_since_def)
    qed
  qed
qed

lemma registry_ok_cong:
  assumes "xhr w' = xhr w"
    and "\<And>r. transport (heap w' r) = transport (heap w r)"
    and "\<And>r. xhrkey (heap w' r) = xhrkey (heap w r)"
  shows "registry_ok w' = registry_ok w"
  using assms by (simp add: registry_ok_iff)

lemma affects_registry_ok: "affects P r w w' \<Longrightarrow> registry_ok w \<Longrightarrow> registry_ok w'"
proof (induction rule: affects.induct)
  case (unchanged w)
  then show ?case .
next
  case (torn_down w w1)
  then show ?case using cleanup_registry_ok by blast
next
  case (notified w w1 name args)
  then show ?case using registry_ok_cong [of "snd (invoke P r name args w1)" w1] by simp
next
  case (has_merged w w1 m)
  then show ?case using registry_ok_cong [of "w1\<lparr>merged := m\<rparr>" w1] by simp
next
  case (has_initialized w w1 b)
  then show ?case using registry_ok_cong [of "w1\<lparr>behaviors := b\<rparr>" w1] by simp
next
  case (has_logged w w1 l)
  then show ?case using registry_ok_cong [of "w1\<lparr>logged := l\<rparr>" w1] by simp
next
  case (rethrown w w1 e ms)
  then show ?case using registry_ok_cong [of "snd (JX_defer (Rethrow e) ms w1)" w1] by simp
qed

lemma send_registry:
  "xhr (snd (Request_send P q w)) =
     (case new_transport P of Inl e \<Rightarrow> xhr w | Inr k \<Rightarrow> xhr w @ [Some q])"
  "xhrkey (heap (snd (Request_send P q w)) q) =
     (case new_transport P of Inl e \<Rightarrow> xhrkey (heap w q) | Inr k \<Rightarrow> Some (length (xhr w)))"
  by (simp_all add: Request_send_def Let_def split_def split: sum.splits option.splits)

lemma send_registry_ok:
  assumes "registry_ok w"
  shows "registry_ok (snd (Request_send P q w))"
proof (cases "new_transport P")
  case (Inl e)
  then show ?thesis using assms by (simp add: Request_send_def)
next
  case (Inr k)
  let ?w1 = "snd (Request_send P q w)"
  have x: "xhr ?w1 = xhr w @ [Some q]"
    and kq: "xhrkey (heap ?w1 q) = Some (length (xhr w))"
    and tq: "transport (heap ?w1 q) = Some (next_xport w)"
    using Inr by (simp_all add: send_registry send_fields)
  show ?thesis
    unfolding registry_ok_iff
  proof (intro allI impI)
    fix i r
    assume lt: "i < length (xhr ?w1)" and e: "xhr ?w1 ! i = Some r"
    show "(\<exists>x. transport (heap ?w1 r) = Some x) \<and>
          (\<exists>k. xhrkey (heap ?w1 r) = Some k \<and> k < length (xhr ?w1) \<and>
               (xhr ?w1 ! k = None \<or> xhr ?w1 ! k = Some r))"
    proof (cases "r = q")
      case True
      then show ?thesis using x kq tq by simp
    next
      case False
      with lt e x have lt': "i < length (xhr w)" and e': "xhr w ! i = Some r"
        by (auto simp: nth_append less_Suc_eq)
      with assms obtain y k' where "transport (heap w r) = Some y"
        "xhrkey (heap w r) = Some k'" "k' < length (xhr w)"
        "xhr w ! k' = None \<or> xhr w ! k' = Some r"
        unfolding registry_ok_iff by blast
      then show ?thesis
        using False x by (simp add: send_heap_other nth_append)
    qed
  qed
qed

lemma registry_ok_top_level: "registry_ok (snd cw) \<Longrightarrow> registry_ok (top_level cw)"
  using registry_ok_cong [of "top_level cw" "snd cw"]
  by (cases cw; cases "fst cw") (simp_all add: top_level_def)

lemma step_registry_ok:
  assumes "registry_ok w"
  shows "registry_ok (step P a w)"
proof (cases a)
  case (Call_send q)
  then show ?thesis
    using send_registry_ok [OF assms] by (simp add: step_def registry_ok_top_level)
next
  case (Call_abort q)
  then show ?thesis
    using affects_registry_ok [OF affects_abort assms]
    by (simp add: step_def registry_ok_top_level)
next
  case (Xhr_change x rs st body)
  let ?w1 = "receive x rs st body w"
  have ok1: "registry_ok ?w1"
    using assms registry_ok_cong [of ?w1 w] by (simp add: receive_def)
  show ?thesis
  proof (cases "onreadystatechange (xports ?w1 x)")
    case None
    with Xhr_change ok1 show ?thesis by (simp add: step_def Let_def)
  next
    case (Some q)
    with Xhr_change show ?thesis
      using affects_registry_ok [OF affects_onreadystatechange ok1]
      by (simp add: step_def Let_def registry_ok_top_level)
  qed
next
  case (Timer_fires t)
  let ?w1 = "w\<lparr>timers := (timers w)[t := (timers w ! t)\<lparr>pending := False\<rparr>]\<rparr>"
  have ok1: "registry_ok ?w1"
    using assms registry_ok_cong [of ?w1 w] by simp
  have "registry_ok (snd (run_callback P cb ?w1))" for cb
    using affects_registry_ok [OF affects_fail ok1] ok1
    by (cases cb) (simp_all add: run_callback_def)
  with Timer_fires assms show ?thesis
    by (simp add: step_def registry_ok_top_level)
next
  case Unload
  then show ?thesis
    by (simp add: step_def Request_shutdown_def registry_ok_def)
qed

lemma run_registry_ok: "registry_ok w \<Longrightarrow> registry_ok (run P as w)"
  by (induction as arbitrary: w) (simp_all add: step_registry_ok)

lemma page_registry_ok: "registry_ok (run P as (page this))"
  by (rule run_registry_ok) (simp add: registry_ok_def page_def)

text \<open>
  Claim C6. In a registry state as \<^verbatim>\<open>send\<close> builds it and every turn keeps it
  (\<open>registry_ok\<close>, which \<open>page_registry_ok\<close> shows of every state a page can reach),
  \<^verbatim>\<open>shutdown\<close> calls \<^verbatim>\<open>abort()\<close> on every request in the registry, whichever of the
  calls throw on the platform \<open>P\<close>: the request is finished and its transport has had
  one more \<^verbatim>\<open>abort()\<close>. Afterwards the registry is empty.
\<close>

theorem shutdown_aborts_all:
  assumes "registry_ok w" and "i < length (xhr w)" and "xhr w ! i = Some r"
  shows "xhr (Request_shutdown P w) = [] \<and> aborted_since w (Request_shutdown P w) r"
  using shutdown_loop_aborts [OF assms(1) _ assms(2,3), of 0 P]
  by (auto simp: Request_shutdown_def aborted_since_def split: option.splits)


lemma three_sent:
  "xhr (run flaky_browser [Call_send 0, Call_send 1, Call_send 2] (page example_request))
     = [Some 0, Some 1, Some 2]"
  by (simp add: world_eval)

theorem shutdown_aborts_all_witness:
  "registry_ok (run flaky_browser [Call_send 0, Call_send 1, Call_send 2] (page example_request)) \<and>
   xhr (run flaky_browser [Call_send 0, Call_send 1, Call_send 2] (page example_request))
     = [Some 0, Some 1, Some 2] \<and>
   (\<forall>w'. xport_abort flaky_browser w' 1 = Some (JsError ''abort failed'')) \<and>
   xhr (Request_shutdown flaky_browser
          (run flaky_browser [Call_send 0, Call_send 1, Call_send 2] (page example_request))) = [] \<and>
   list_all (aborted_since
               (run flaky_browser [Call_send 0, Call_send 1, Call_send 2] (page example_request))
               (Request_shutdown flaky_browser
                  (run flaky_browser [Call_send 0, Call_send 1, Call_send 2] (page example_request))))
     [0, 1, 2]"
proof -
  let ?w = "run flaky_browser [Call_send 0, Call_send 1, Call_send 2] (page example_request)"
  have ok: "registry_ok ?w"
    by (rule page_registry_ok)
  have x: "xhr ?w = [Some 0, Some 1, Some 2]"
    by (rule three_sent)
  have i: "0 < length (xhr ?w)" "xhr ?w ! 0 = Some 0"
    "1 < length (xhr ?w)" "xhr ?w ! 1 = Some 1"
    "2 < length (xhr ?w)" "xhr ?w ! 2 = Some 2"
    unfolding x by simp_all
  have f: "\<forall>w'. xport_abort flaky_browser w' 1 = Some (JsError ''abort failed'')"
    by (simp add: flaky_browser_def)
  show ?thesis
    using shutdown_aborts_all [OF ok i(1,2), of flaky_browser]
      shutdown_aborts_all [OF ok i(3,4), of flaky_browser]
      shutdown_aborts_all [OF ok i(5,6), of flaky_browser] ok x f
    by (simp del: run.simps)
qed

end
